theory Spec2Isabelle
  imports Main
begin

section \<open>Data model\<close>

text \<open>
  The embedding follows \<^verbatim>\<open>src/app/main.py\<close>. Values the program only carries
  around (Python floats such as \<^verbatim>\<open>upvote_ratio\<close> and the raw
  \<^verbatim>\<open>created_utc\<close>) have the abstract type \<open>'f\<close>. A naive
  \<^verbatim>\<open>datetime\<close> is a point on a discrete time line (a count of microseconds),
  so it is an \<open>int\<close>; the program only compares datetimes. An exception is
  represented by the text \<^verbatim>\<open>str(e)\<close> that the handlers print.
\<close>

type_synonym datetime = int
type_synonym exn = string

text \<open>The attributes of a PRAW submission that \<^verbatim>\<open>search_posts\<close> reads.\<close>

record 'f submission =
  s_id :: string
  s_title :: string
  s_author :: "string option"
  s_created_utc :: 'f
  s_score :: int
  s_upvote_ratio :: 'f
  s_num_comments :: int
  s_url :: string
  s_selftext :: string
  s_link_flair_text :: "string option"
  s_is_self :: bool
  s_permalink :: string

text \<open>One row of the Post table: the dictionary appended at lines 73-88.\<close>

record 'f post =
  subreddit :: string
  search_keyword :: string
  post_id :: string
  title :: string
  author :: string
  created_utc :: datetime
  score :: int
  upvote_ratio :: 'f
  num_comments :: int
  url :: string
  selftext :: string
  link_flair_text :: "string option"
  is_self :: bool
  permalink :: string

text \<open>
  An iteration over a lazy PRAW listing yields some items and then either ends or raises
  (the request for the first or for a later page fails).
\<close>

datatype 'a listing = Listing (yielded: "'a list") (raised: "exn option")

text \<open>The attributes of a PRAW comment that \<^verbatim>\<open>get_comments\<close> reads.\<close>

record 'f comment_obj =
  k_id :: string
  k_author :: "string option"
  k_body :: string
  k_score :: int
  k_created_utc :: 'f
  k_is_submitter :: bool
  k_permalink :: string

text \<open>
  A comment forest as the platform delivers it: a node is a genuine comment with its
  replies, or a \<^verbatim>\<open>MoreComments\<close> placeholder. The placeholder carries the nodes
  that the platform would deliver if the placeholder were resolved.
\<close>

datatype 'f node =
    Comment "'f comment_obj" "'f node list"
  | MoreComments "'f node list"

text \<open>One row of the Comment table: the dictionary appended at lines 136-145.\<close>

record comment_row =
  c_post_id :: string
  comment_id :: string
  c_author :: string
  body :: string
  c_score :: int
  c_created_utc :: datetime
  is_submitter :: bool
  c_permalink :: string

text \<open>
  The external collaborators. \<open>search name keyword limit sort_mode time_filter\<close> is the
  iteration of \<^verbatim>\<open>reddit.subreddit(name).search(keyword, limit=.., sort=..,
  time_filter=..)\<close>; \<open>fetch_comments post_id\<close> is the first access to
  \<^verbatim>\<open>reddit.submission(id=post_id).comments\<close>, which requests the forest and can
  raise; \<open>fromtimestamp\<close> is \<^verbatim>\<open>datetime.fromtimestamp\<close>, which raises on
  a value out of the platform's range. Each is a function of its arguments.
\<close>

record 'f reddit =
  search :: "string \<Rightarrow> string \<Rightarrow> int \<Rightarrow> string \<Rightarrow> string \<Rightarrow> 'f submission listing"
  fetch_comments :: "string \<Rightarrow> exn + 'f node list"
  fromtimestamp :: "'f \<Rightarrow> exn + datetime"

text \<open>
  The mutable state of one collection loop: the accumulating list
  (\<^verbatim>\<open>all_results\<close>, \<^verbatim>\<open>all_comments\<close>) and the strings printed so far,
  one entry per \<^verbatim>\<open>print\<close> call.
\<close>

record 'r run =
  collected :: "'r list"
  printed :: "string list"

definition print :: "string \<Rightarrow> 'r run \<Rightarrow> 'r run" where
  "print s st = st\<lparr>printed := printed st @ [s]\<rparr>"

definition append_row :: "'r \<Rightarrow> 'r run \<Rightarrow> 'r run" where
  "append_row r st = st\<lparr>collected := collected st @ [r]\<rparr>"

definition start_run :: "'r run" where
  "start_run = \<lparr>collected = [], printed = []\<rparr>"

section \<open>Formatting\<close>

text \<open>\<^verbatim>\<open>str(x)\<close> of an author attribute: the name, or \<^verbatim>\<open>None\<close>.\<close>

definition str_author :: "string option \<Rightarrow> string" where
  "str_author a = (case a of None \<Rightarrow> ''None'' | Some n \<Rightarrow> n)"

definition digit :: "nat \<Rightarrow> char" where
  "digit d = ''0123456789'' ! d"

text \<open>The decimal text of a natural number, as an f-string prints it.\<close>

fun str_nat :: "nat \<Rightarrow> string" where
  "str_nat n = (if n < 10 then [digit n] else str_nat (n div 10) @ [digit (n mod 10)])"

section \<open>search_posts\<close>

text \<open>The loop body of lines 65-88 for one submission; \<open>Inl e\<close> is a raise.\<close>

definition make_post :: "string \<Rightarrow> string \<Rightarrow> datetime \<Rightarrow> 'f submission \<Rightarrow> 'f post" where
  "make_post subreddit_name keyword post_date s =
     \<lparr>subreddit = subreddit_name,
      search_keyword = keyword,
      post_id = s_id s,
      title = s_title s,
      author = str_author (s_author s),
      created_utc = post_date,
      score = s_score s,
      upvote_ratio = s_upvote_ratio s,
      num_comments = s_num_comments s,
      url = s_url s,
      selftext = s_selftext s,
      link_flair_text = s_link_flair_text s,
      is_self = s_is_self s,
      permalink = ''https://reddit.com'' @ s_permalink s\<rparr>"

text \<open>
  \<^verbatim>\<open>if start_date and post_date < start_date\<close>: a datetime is always truthy, so the
  guard is false exactly for \<^verbatim>\<open>None\<close>.
\<close>

definition before_start :: "datetime option \<Rightarrow> datetime \<Rightarrow> bool" where
  "before_start start_date post_date =
     (case start_date of None \<Rightarrow> False | Some sd \<Rightarrow> post_date < sd)"

definition after_end :: "datetime option \<Rightarrow> datetime \<Rightarrow> bool" where
  "after_end end_date post_date =
     (case end_date of None \<Rightarrow> False | Some ed \<Rightarrow> post_date > ed)"

text \<open>
  The innermost loop (lines 59-88) over the items a listing yields. The result is the
  exception that left the loop, if any, and the state at that moment: rows appended
  before a raise stay in the list.
\<close>

fun submissions_loop ::
  "'f reddit \<Rightarrow> string \<Rightarrow> string \<Rightarrow> datetime option \<Rightarrow> datetime option \<Rightarrow>
   'f submission list \<Rightarrow> 'f post run \<Rightarrow> exn option \<times> 'f post run" where
  "submissions_loop env subreddit_name keyword start_date end_date [] st = (None, st)"
| "submissions_loop env subreddit_name keyword start_date end_date (s # ss) st =
     (case fromtimestamp env (s_created_utc s) of
        Inl e \<Rightarrow> (Some e, st)
      | Inr post_date \<Rightarrow>
          if before_start start_date post_date
          then submissions_loop env subreddit_name keyword start_date end_date ss st
          else if after_end end_date post_date
          then submissions_loop env subreddit_name keyword start_date end_date ss st
          else submissions_loop env subreddit_name keyword start_date end_date ss
                 (append_row (make_post subreddit_name keyword post_date s) st))"

text \<open>Iterating one listing: the items it yields, then its own raise if it has one.\<close>

definition search_loop ::
  "'f reddit \<Rightarrow> string \<Rightarrow> string \<Rightarrow> datetime option \<Rightarrow> datetime option \<Rightarrow>
   'f submission listing \<Rightarrow> 'f post run \<Rightarrow> exn option \<times> 'f post run" where
  "search_loop env subreddit_name keyword start_date end_date l st =
     (case submissions_loop env subreddit_name keyword start_date end_date (yielded l) st of
        (Some e, st') \<Rightarrow> (Some e, st')
      | (None, st') \<Rightarrow> (raised l, st'))"

text \<open>The loop over the keywords (lines 55-88), inside the \<^verbatim>\<open>try\<close>.\<close>

fun keywords_loop ::
  "'f reddit \<Rightarrow> string \<Rightarrow> datetime option \<Rightarrow> datetime option \<Rightarrow> int \<Rightarrow> string \<Rightarrow> string \<Rightarrow>
   string list \<Rightarrow> 'f post run \<Rightarrow> exn option \<times> 'f post run" where
  "keywords_loop env subreddit_name start_date end_date limit sort_mode time_filter [] st = (None, st)"
| "keywords_loop env subreddit_name start_date end_date limit sort_mode time_filter (keyword # ks) st =
     (case search_loop env subreddit_name keyword start_date end_date
             (search env subreddit_name keyword limit sort_mode time_filter)
             (print (''  Keyword: '' @ [CHR 0x27] @ keyword @ [CHR 0x27]) st) of
        (Some e, st') \<Rightarrow> (Some e, st')
      | (None, st') \<Rightarrow>
          keywords_loop env subreddit_name start_date end_date limit sort_mode time_filter ks st')"

text \<open>
  One turn of the outer loop (lines 49-92): the \<^verbatim>\<open>try\<close> block and its handler,
  which prints the error and goes on to the next subreddit.
\<close>

definition subreddit_step ::
  "'f reddit \<Rightarrow> string list \<Rightarrow> datetime option \<Rightarrow> datetime option \<Rightarrow> int \<Rightarrow> string \<Rightarrow> string \<Rightarrow>
   string \<Rightarrow> 'f post run \<Rightarrow> 'f post run" where
  "subreddit_step env keywords start_date end_date limit sort_mode time_filter subreddit_name st =
     (case keywords_loop env subreddit_name start_date end_date limit sort_mode time_filter keywords
             (print ([CHR 0x0A] @ ''Searching r/'' @ subreddit_name @ ''...'') st) of
        (None, st') \<Rightarrow> st'
      | (Some e, st') \<Rightarrow> print (''  Error in r/'' @ subreddit_name @ '': '' @ e) st')"

fun subreddits_loop ::
  "'f reddit \<Rightarrow> string list \<Rightarrow> datetime option \<Rightarrow> datetime option \<Rightarrow> int \<Rightarrow> string \<Rightarrow> string \<Rightarrow>
   string list \<Rightarrow> 'f post run \<Rightarrow> 'f post run" where
  "subreddits_loop env keywords start_date end_date limit sort_mode time_filter [] st = st"
| "subreddits_loop env keywords start_date end_date limit sort_mode time_filter (subreddit_name # ns) st =
     subreddits_loop env keywords start_date end_date limit sort_mode time_filter ns
       (subreddit_step env keywords start_date end_date limit sort_mode time_filter subreddit_name st)"

text \<open>
  \<^verbatim>\<open>DataFrame.drop_duplicates(subset=[key], keep='first')\<close>: the rows in their
  order, without every row whose key an earlier row has.
\<close>

fun drop_duplicates_from :: "('r \<Rightarrow> 'k) \<Rightarrow> 'k list \<Rightarrow> 'r list \<Rightarrow> 'r list" where
  "drop_duplicates_from key seen [] = []"
| "drop_duplicates_from key seen (r # rs) =
     (if key r \<in> set seen then drop_duplicates_from key seen rs
      else r # drop_duplicates_from key (key r # seen) rs)"

definition drop_duplicates :: "('r \<Rightarrow> 'k) \<Rightarrow> 'r list \<Rightarrow> 'r list" where
  "drop_duplicates key rs = drop_duplicates_from key [] rs"

text \<open>
  \<^verbatim>\<open>search_posts\<close> (lines 21-101). The result is the returned table and what was
  printed.
\<close>

definition search_posts ::
  "'f reddit \<Rightarrow> string list \<Rightarrow> string list \<Rightarrow> datetime option \<Rightarrow> datetime option \<Rightarrow>
   int \<Rightarrow> string \<Rightarrow> string \<Rightarrow> 'f post list \<times> string list" where
  "search_posts env subreddits keywords start_date end_date limit sort_mode time_filter =
     (let st = subreddits_loop env keywords start_date end_date limit sort_mode time_filter
                 subreddits start_run;
          df = collected st
      in if length df > 0
         then (let df' = drop_duplicates post_id df
               in (df', printed st @
                     [[CHR 0x0A] @ ''Total unique posts collected: '' @ str_nat (length df')]))
         else (df, printed st))"

section \<open>get_comments\<close>

text \<open>
  \<^verbatim>\<open>submission.comments.replace_more(limit=0)\<close> (line 127). PRAW documents the
  argument: \<^verbatim>\<open>limit\<close> is the number of placeholders to replace, each by one
  request, and \<^verbatim>\<open>0\<close> removes every \<^verbatim>\<open>MoreComments\<close> instance without
  a request. The forest keeps its genuine comments, at every depth.
\<close>

fun replace_more_limit_0 :: "'f node list \<Rightarrow> 'f node list" where
  "replace_more_limit_0 [] = []"
| "replace_more_limit_0 (Comment c rs # ns) =
     Comment c (replace_more_limit_0 rs) # replace_more_limit_0 ns"
| "replace_more_limit_0 (MoreComments hs # ns) = replace_more_limit_0 ns"

text \<open>
  \<^verbatim>\<open>CommentForest.list()\<close> (line 132): PRAW flattens the forest breadth first, with
  a queue that starts as the top level; a comment taken from the queue is emitted and its
  replies join the end of the queue.
\<close>

function forest_list :: "'f node list \<Rightarrow> 'f node list" where
  "forest_list [] = []"
| "forest_list (Comment c rs # queue) = Comment c rs # forest_list (queue @ rs)"
| "forest_list (MoreComments hs # queue) = MoreComments hs # forest_list queue"
  by pat_completeness auto
termination
  by (relation "measure (size_list size)") auto

definition make_comment :: "string \<Rightarrow> datetime \<Rightarrow> 'f comment_obj \<Rightarrow> comment_row" where
  "make_comment pid created c =
     \<lparr>c_post_id = pid,
      comment_id = k_id c,
      c_author = str_author (k_author c),
      body = k_body c,
      c_score = k_score c,
      c_created_utc = created,
      is_submitter = k_is_submitter c,
      c_permalink = ''https://reddit.com'' @ k_permalink c\<rparr>"

text \<open>
  \<^verbatim>\<open>if limit and len(all_comments) >= limit\<close> (line 147): \<^verbatim>\<open>None\<close> and
  \<^verbatim>\<open>0\<close> are falsy.
\<close>

definition limit_reached :: "int option \<Rightarrow> nat \<Rightarrow> bool" where
  "limit_reached limit n =
     (case limit of None \<Rightarrow> False | Some l \<Rightarrow> l \<noteq> 0 \<and> int n \<ge> l)"

text \<open>
  The loop over the comments of one post (lines 134-148). A node that is not a
  \<^verbatim>\<open>Comment\<close> is passed over; \<^verbatim>\<open>break\<close> ends this loop, without an
  exception.
\<close>

fun comments_loop ::
  "'f reddit \<Rightarrow> string \<Rightarrow> int option \<Rightarrow> 'f node list \<Rightarrow> comment_row run \<Rightarrow>
   exn option \<times> comment_row run" where
  "comments_loop env pid limit [] st = (None, st)"
| "comments_loop env pid limit (MoreComments hs # cs) st = comments_loop env pid limit cs st"
| "comments_loop env pid limit (Comment c rs # cs) st =
     (case fromtimestamp env (k_created_utc c) of
        Inl e \<Rightarrow> (Some e, st)
      | Inr created \<Rightarrow>
          (let st' = append_row (make_comment pid created c) st
           in if limit_reached limit (length (collected st')) then (None, st')
              else comments_loop env pid limit cs st'))"

text \<open>The \<^verbatim>\<open>try\<close> block of one post (lines 126-148); \<open>Inl e\<close> is a raise.\<close>

definition collect_post ::
  "'f reddit \<Rightarrow> bool \<Rightarrow> int option \<Rightarrow> string \<Rightarrow> comment_row run \<Rightarrow> exn option \<times> comment_row run" where
  "collect_post env top_level_only limit pid st =
     (case fetch_comments env pid of
        Inl e \<Rightarrow> (Some e, st)
      | Inr forest \<Rightarrow>
          (let resolved = replace_more_limit_0 forest;
               comments = (if top_level_only then resolved else forest_list resolved)
           in comments_loop env pid limit comments st))"

text \<open>One turn of the loop over the post identifiers (lines 122-152).\<close>

definition post_step ::
  "'f reddit \<Rightarrow> bool \<Rightarrow> int option \<Rightarrow> nat \<Rightarrow> nat \<Rightarrow> string \<Rightarrow> comment_row run \<Rightarrow> comment_row run" where
  "post_step env top_level_only limit n_posts idx pid st =
     (case collect_post env top_level_only limit pid
             (print (''Collecting comments from post '' @ str_nat (idx + 1) @ ''/'' @ str_nat n_posts) st) of
        (None, st') \<Rightarrow> st'
      | (Some e, st') \<Rightarrow>
          print (''  Error collecting comments from '' @ pid @ '': '' @ e) st')"

fun posts_loop ::
  "'f reddit \<Rightarrow> bool \<Rightarrow> int option \<Rightarrow> nat \<Rightarrow> nat \<Rightarrow> string list \<Rightarrow> comment_row run \<Rightarrow> comment_row run" where
  "posts_loop env top_level_only limit n_posts idx [] st = st"
| "posts_loop env top_level_only limit n_posts idx (pid # ps) st =
     posts_loop env top_level_only limit n_posts (idx + 1) ps
       (post_step env top_level_only limit n_posts idx pid st)"

text \<open>
  \<^verbatim>\<open>get_comments\<close> (lines 103-154). The result is the returned table and what was
  printed.
\<close>

definition get_comments ::
  "'f reddit \<Rightarrow> string list \<Rightarrow> bool \<Rightarrow> int option \<Rightarrow> comment_row list \<times> string list" where
  "get_comments env post_ids top_level_only limit =
     (let st = posts_loop env top_level_only limit (length post_ids) 0 post_ids start_run
      in (collected st, printed st))"

section \<open>save_data\<close>

text \<open>
  The moment of the export, as the fields of \<^verbatim>\<open>datetime.now()\<close> that the
  format reads.
\<close>

record clock_time =
  t_year :: nat
  t_month :: nat
  t_day :: nat
  t_hour :: nat
  t_minute :: nat
  t_second :: nat

definition zero_pad :: "nat \<Rightarrow> string \<Rightarrow> string" where
  "zero_pad w s = replicate (w - length s) (CHR ''0'') @ s"

text \<open>
  \<^verbatim>\<open>strftime('%Y%m%d_%H%M%S')\<close> (line 158): each directive is a zero-padded
  decimal number, the year of width four and the others of width two.
\<close>

definition strftime :: "clock_time \<Rightarrow> string" where
  "strftime t =
     zero_pad 4 (str_nat (t_year t)) @ zero_pad 2 (str_nat (t_month t)) @
     zero_pad 2 (str_nat (t_day t)) @ ''_'' @
     zero_pad 2 (str_nat (t_hour t)) @ zero_pad 2 (str_nat (t_minute t)) @
     zero_pad 2 (str_nat (t_second t))"

text \<open>
  The files of the working directory, by name. \<^verbatim>\<open>df.to_csv(filename,
  index=False)\<close> raises when the file cannot be opened for writing, and otherwise
  replaces the file's content by the text of the table; the text itself comes from
  pandas and is a parameter (\<open>render\<close>).
\<close>

type_synonym files = "string \<rightharpoonup> string"

definition to_csv ::
  "(string \<Rightarrow> exn option) \<Rightarrow> ('r list \<Rightarrow> string) \<Rightarrow> 'r list \<Rightarrow> string \<Rightarrow> files \<Rightarrow> exn + files" where
  "to_csv cannot_open render df filename fs =
     (case cannot_open filename of
        Some e \<Rightarrow> Inl e
      | None \<Rightarrow> Inr (fs(filename \<mapsto> render df)))"

text \<open>
  \<^verbatim>\<open>save_data\<close> (lines 156-169), from the files and the printed lines before the
  call to the returned name, the files and the printed lines after it. There is no
  handler: an exception of \<^verbatim>\<open>to_csv\<close> leaves the function (\<open>Inl\<close>).
  \<^verbatim>\<open>comments_df\<close> is \<^verbatim>\<open>None\<close> or a table.
\<close>

definition save_data ::
  "(string \<Rightarrow> exn option) \<Rightarrow> ('f post list \<Rightarrow> string) \<Rightarrow> (comment_row list \<Rightarrow> string) \<Rightarrow>
   clock_time \<Rightarrow> 'f post list \<Rightarrow> comment_row list option \<Rightarrow> string \<Rightarrow>
   files \<times> string list \<Rightarrow> exn + (string \<times> files \<times> string list)" where
  "save_data cannot_open render_posts render_comments now posts_df comments_df output_prefix w =
     (let timestamp = strftime now;
          posts_filename = output_prefix @ ''_posts_'' @ timestamp @ ''.csv''
      in case to_csv cannot_open render_posts posts_df posts_filename (fst w) of
           Inl e \<Rightarrow> Inl e
         | Inr fs1 \<Rightarrow>
             (let out1 = snd w @ [[CHR 0x0A] @ ''Posts saved to: '' @ posts_filename]
              in case comments_df of
                   None \<Rightarrow> Inr (posts_filename, fs1, out1)
                 | Some cdf \<Rightarrow>
                     if length cdf > 0
                     then (let comments_filename =
                                 output_prefix @ ''_comments_'' @ timestamp @ ''.csv''
                           in case to_csv cannot_open render_comments cdf comments_filename fs1 of
                                Inl e \<Rightarrow> Inl e
                              | Inr fs2 \<Rightarrow>
                                  Inr (posts_filename, fs2,
                                       out1 @ [''Comments saved to: '' @ comments_filename]))
                     else Inr (posts_filename, fs1, out1)))"

section \<open>RedditDataCollector.__init__\<close>

text \<open>
  The process environment is a dictionary. \<^verbatim>\<open>os.getenv(key)\<close> is
  \<^verbatim>\<open>None\<close> for a variable that is not set; with a default, the default stands in
  for an unset variable only.
\<close>

type_synonym environ = "string \<rightharpoonup> string"

definition getenv :: "environ \<Rightarrow> string \<Rightarrow> string option" where
  "getenv environ key = environ key"

definition getenv_default :: "environ \<Rightarrow> string \<Rightarrow> string \<Rightarrow> string" where
  "getenv_default environ key dflt = (case environ key of None \<Rightarrow> dflt | Some v \<Rightarrow> v)"

text \<open>The keyword arguments of the call \<^verbatim>\<open>praw.Reddit(...)\<close> at lines 15-19.\<close>

record reddit_args =
  arg_client_id :: "string option"
  arg_client_secret :: "string option"
  arg_user_agent :: string

text \<open>
  \<^verbatim>\<open>__init__\<close> (lines 13-19). \<open>Reddit\<close> is PRAW's constructor, whatever it
  builds from its arguments; the result is the value stored in \<^verbatim>\<open>self.reddit\<close>.
  The three parameters are values of any type.
\<close>

definition collector_init ::
  "(reddit_args \<Rightarrow> 's) \<Rightarrow> environ \<Rightarrow> 'a \<Rightarrow> 'b \<Rightarrow> 'c \<Rightarrow> 's" where
  "collector_init Reddit environ client_id client_secret user_agent =
     Reddit \<lparr>arg_client_id = getenv environ ''REDDIT_CLIENT_ID'',
             arg_client_secret = getenv environ ''REDDIT_CLIENT_SECRET'',
             arg_user_agent = getenv_default environ ''REDDIT_USER_AGENT'' ''reddit-docker-app''\<rparr>"

section \<open>Derived notions and example data\<close>

text \<open>
  What a loop adds to the state it starts from: rows and printed lines are only ever
  appended, so the state after a loop is the state before it extended by the state the
  loop reaches from \<open>start_run\<close>.
\<close>

definition extend :: "'r run \<Rightarrow> 'r run \<Rightarrow> 'r run" where
  "extend st d = \<lparr>collected = collected st @ collected d, printed = printed st @ printed d\<rparr>"

text \<open>
  The rows that the \<^verbatim>\<open>try\<close> block of one subreddit appends, and the exception
  that ends the block, if any.
\<close>

definition community_rows ::
  "'f reddit \<Rightarrow> string list \<Rightarrow> datetime option \<Rightarrow> datetime option \<Rightarrow> int \<Rightarrow> string \<Rightarrow> string \<Rightarrow>
   string \<Rightarrow> 'f post list" where
  "community_rows env keywords start_date end_date limit sort_mode time_filter subreddit_name =
     collected (snd (keywords_loop env subreddit_name start_date end_date limit sort_mode
                       time_filter keywords start_run))"

definition community_error ::
  "'f reddit \<Rightarrow> string list \<Rightarrow> datetime option \<Rightarrow> datetime option \<Rightarrow> int \<Rightarrow> string \<Rightarrow> string \<Rightarrow>
   string \<Rightarrow> exn option" where
  "community_error env keywords start_date end_date limit sort_mode time_filter subreddit_name =
     fst (keywords_loop env subreddit_name start_date end_date limit sort_mode
            time_filter keywords start_run)"

text \<open>The list \<^verbatim>\<open>all_results\<close> at line 94, before the duplicates are dropped.\<close>

definition all_results ::
  "'f reddit \<Rightarrow> string list \<Rightarrow> string list \<Rightarrow> datetime option \<Rightarrow> datetime option \<Rightarrow>
   int \<Rightarrow> string \<Rightarrow> string \<Rightarrow> 'f post list" where
  "all_results env subreddits keywords start_date end_date limit sort_mode time_filter =
     collected (subreddits_loop env keywords start_date end_date limit sort_mode time_filter
                  subreddits start_run)"

text \<open>
  Concrete data, on which the theorems below are instantiated. The subreddit
  \<^verbatim>\<open>alpha\<close> answers every keyword with the post \<^verbatim>\<open>P\<close>;
  \<^verbatim>\<open>dated\<close> answers with four posts created at 9, 10, 20 and 21;
  \<^verbatim>\<open>flaky\<close> answers the keyword \<^verbatim>\<open>x\<close> and raises on every other
  keyword; any other subreddit does not exist. The posts \<^verbatim>\<open>p1\<close> and
  \<^verbatim>\<open>p2\<close> have two top-level comments each, \<^verbatim>\<open>p3\<close> has a comment with
  a reply and a placeholder, and any other post cannot be fetched.
\<close>

definition demo_submission :: "string \<Rightarrow> int \<Rightarrow> int submission" where
  "demo_submission i t =
     \<lparr>s_id = i, s_title = ''title of '' @ i, s_author = None, s_created_utc = t, s_score = 1,
      s_upvote_ratio = 1, s_num_comments = 0, s_url = ''https://example.org'',
      s_selftext = [], s_link_flair_text = None, s_is_self = False,
      s_permalink = ''/r/demo/comments/'' @ i\<rparr>"

definition demo_comment :: "string \<Rightarrow> int comment_obj" where
  "demo_comment i =
     \<lparr>k_id = i, k_author = Some ''someone'', k_body = ''text'', k_score = 1, k_created_utc = 50,
      k_is_submitter = False, k_permalink = ''/r/demo/comments/p/_/'' @ i\<rparr>"

definition demo_reddit :: "int reddit" where
  "demo_reddit =
     \<lparr>search = (\<lambda>n k lim so tf.
        if n = ''alpha'' then Listing [demo_submission ''P'' 100] None
        else if n = ''dated'' then
          Listing [demo_submission ''early'' 9, demo_submission ''at_start'' 10,
                   demo_submission ''at_end'' 20, demo_submission ''late'' 21] None
        else if n = ''flaky'' then
          (if k = ''x'' then Listing [demo_submission ''Q'' 100] None
           else Listing [] (Some ''timed out''))
        else Listing [] (Some ''received 404 HTTP response'')),
      fetch_comments = (\<lambda>p.
        if p = ''p1'' then Inr [Comment (demo_comment ''c1'') [], Comment (demo_comment ''c2'') []]
        else if p = ''p2'' then Inr [Comment (demo_comment ''c3'') [], Comment (demo_comment ''c4'') []]
        else if p = ''p3'' then
          Inr [Comment (demo_comment ''c5'') [Comment (demo_comment ''c6'') []],
               MoreComments [Comment (demo_comment ''c7'') []]]
        else Inl ''received 404 HTTP response''),
      fromtimestamp = Inr\<rparr>"

text \<open>
  The list \<^verbatim>\<open>all_comments\<close> after the \<^verbatim>\<open>try\<close> block of one post, from the
  list before it.
\<close>

definition post_rows ::
  "'f reddit \<Rightarrow> bool \<Rightarrow> int option \<Rightarrow> comment_row list \<Rightarrow> string \<Rightarrow> comment_row list" where
  "post_rows env top_level_only limit acc pid =
     collected (snd (collect_post env top_level_only limit pid \<lparr>collected = acc, printed = []\<rparr>))"

text \<open>\<^verbatim>\<open>isinstance(comment, praw.models.Comment)\<close> (line 135).\<close>

fun is_comment :: "'f node \<Rightarrow> bool" where
  "is_comment (Comment c rs) = True"
| "is_comment (MoreComments hs) = False"

text \<open>A forest without a placeholder at any depth.\<close>

fun no_placeholder :: "'f node list \<Rightarrow> bool" where
  "no_placeholder [] = True"
| "no_placeholder (Comment c rs # ns) = (no_placeholder rs \<and> no_placeholder ns)"
| "no_placeholder (MoreComments hs # ns) = False"

text \<open>The genuine comments among the nodes of a view, in the order of the view.\<close>

fun genuine :: "'f node list \<Rightarrow> 'f comment_obj list" where
  "genuine [] = []"
| "genuine (Comment c rs # ns) = c # genuine ns"
| "genuine (MoreComments hs # ns) = genuine ns"

text \<open>
  The comments of a delivered forest that do not lie behind a placeholder, at every
  depth (depth first).
\<close>

fun visible :: "'f node list \<Rightarrow> 'f comment_obj list" where
  "visible [] = []"
| "visible (Comment c rs # ns) = c # visible rs @ visible ns"
| "visible (MoreComments hs # ns) = visible ns"

text \<open>
  The specification's words for line 127, "fully resolve placeholders before reading,
  treating expansion depth as unlimited": every placeholder is replaced by the nodes it
  stands for, themselves resolved.
\<close>

fun resolve_all :: "'f node list \<Rightarrow> 'f node list" where
  "resolve_all [] = []"
| "resolve_all (Comment c rs # ns) = Comment c (resolve_all rs) # resolve_all ns"
| "resolve_all (MoreComments hs # ns) = resolve_all hs @ resolve_all ns"

text \<open>A moment of export: 4 November 2026, 16:25:07.\<close>

definition demo_now :: clock_time where
  "demo_now = \<lparr>t_year = 2026, t_month = 11, t_day = 4, t_hour = 16, t_minute = 25, t_second = 7\<rparr>"

section \<open>Properties of the constructor\<close>

text \<open>
  Claim C10. The constructor ignores its three credential parameters: two invocations
  with different arguments (of any types) under the same environment build the same
  session. The session is built from the environment variables
  \<^verbatim>\<open>REDDIT_CLIENT_ID\<close>, \<^verbatim>\<open>REDDIT_CLIENT_SECRET\<close> and
  \<^verbatim>\<open>REDDIT_USER_AGENT\<close> alone, the last replaced by
  \<^verbatim>\<open>reddit-docker-app\<close> when it is not set.
\<close>

theorem collector_init_ignores_parameters:
  "collector_init Reddit environ client_id client_secret user_agent =
     collector_init Reddit environ client_id' client_secret' user_agent'
   \<and> collector_init Reddit environ client_id client_secret user_agent =
     Reddit \<lparr>arg_client_id = environ ''REDDIT_CLIENT_ID'',
             arg_client_secret = environ ''REDDIT_CLIENT_SECRET'',
             arg_user_agent =
               (case environ ''REDDIT_USER_AGENT'' of
                  None \<Rightarrow> ''reddit-docker-app''
                | Some v \<Rightarrow> v)\<rparr>"
  by (simp add: collector_init_def getenv_def getenv_default_def)

section \<open>Loops only append\<close>

lemma extend_start_right [simp]: "extend st start_run = st"
  by (simp add: extend_def start_run_def)

lemma extend_start_left [simp]: "extend start_run d = d"
  by (simp add: extend_def start_run_def)

lemma extend_assoc: "extend (extend a b) c = extend a (extend b c)"
  by (simp add: extend_def)

lemma collected_extend [simp]: "collected (extend st d) = collected st @ collected d"
  by (simp add: extend_def)

lemma printed_extend [simp]: "printed (extend st d) = printed st @ printed d"
  by (simp add: extend_def)

lemma append_row_extend: "append_row r st = extend st (append_row r start_run)"
  by (simp add: append_row_def extend_def start_run_def)

lemma print_extend: "print s st = extend st (print s start_run)"
  by (simp add: print_def extend_def start_run_def)

lemma collected_start [simp]: "collected start_run = []" "printed start_run = []"
  by (simp_all add: start_run_def)

lemma collected_print [simp]: "collected (print s st) = collected st"
  by (simp add: print_def)

lemma printed_print [simp]: "printed (print s st) = printed st @ [s]"
  by (simp add: print_def)

lemma collected_append_row [simp]: "collected (append_row r st) = collected st @ [r]"
  by (simp add: append_row_def)

lemma printed_append_row [simp]: "printed (append_row r st) = printed st"
  by (simp add: append_row_def)

lemma submissions_loop_extend:
  "submissions_loop env n k sd ed ss st =
     (fst (submissions_loop env n k sd ed ss start_run),
      extend st (snd (submissions_loop env n k sd ed ss start_run)))"
proof (induction ss arbitrary: st)
  case Nil
  show ?case by simp
next
  case (Cons s ss)
  show ?case
  proof (cases "fromtimestamp env (s_created_utc s)")
    case (Inl e)
    then show ?thesis by simp
  next
    case (Inr d)
    let ?r = "make_post n k d s"
    have a: "submissions_loop env n k sd ed ss (append_row ?r st) =
        (fst (submissions_loop env n k sd ed ss start_run),
         extend (append_row ?r st) (snd (submissions_loop env n k sd ed ss start_run)))"
      by (rule Cons.IH)
    have b: "submissions_loop env n k sd ed ss (append_row ?r start_run) =
        (fst (submissions_loop env n k sd ed ss start_run),
         extend (append_row ?r start_run) (snd (submissions_loop env n k sd ed ss start_run)))"
      by (rule Cons.IH)
    have c: "extend (append_row ?r st) x = extend st (extend (append_row ?r start_run) x)" for x
      by (simp add: append_row_def extend_def start_run_def)
    show ?thesis
      using Inr Cons.IH [of st] a b c by simp
  qed
qed

lemma search_loop_extend:
  "search_loop env n k sd ed l st =
     (fst (search_loop env n k sd ed l start_run),
      extend st (snd (search_loop env n k sd ed l start_run)))"
proof -
  obtain e d where r: "submissions_loop env n k sd ed (yielded l) start_run = (e, d)"
    by (cases "submissions_loop env n k sd ed (yielded l) start_run")
  have "submissions_loop env n k sd ed (yielded l) st = (e, extend st d)"
    using submissions_loop_extend [of env n k sd ed "yielded l" st] r by simp
  with r show ?thesis
    by (cases e) (simp_all add: search_loop_def)
qed

lemma keywords_loop_extend:
  "keywords_loop env n sd ed lim so tf ks st =
     (fst (keywords_loop env n sd ed lim so tf ks start_run),
      extend st (snd (keywords_loop env n sd ed lim so tf ks start_run)))"
proof (induction ks arbitrary: st)
  case Nil
  show ?case by simp
next
  case (Cons k ks)
  let ?p = "''  Keyword: '' @ [CHR 0x27] @ k @ [CHR 0x27]"
  let ?l = "search env n k lim so tf"
  obtain e d where r: "search_loop env n k sd ed ?l start_run = (e, d)"
    by (cases "search_loop env n k sd ed ?l start_run")
  have s: "search_loop env n k sd ed ?l (print ?p st') = (e, extend (print ?p st') d)" for st'
    using search_loop_extend [of env n k sd ed ?l "print ?p st'"] r by simp
  show ?case
  proof (cases e)
    case (Some x)
    have "extend (print ?p st) d = extend st (extend (print ?p start_run) d)"
      by (simp add: extend_def)
    with Some s [of st] s [of start_run] show ?thesis by simp
  next
    case None
    obtain e' d' where r': "keywords_loop env n sd ed lim so tf ks start_run = (e', d')"
      by (cases "keywords_loop env n sd ed lim so tf ks start_run")
    have k: "keywords_loop env n sd ed lim so tf ks st' = (e', extend st' d')" for st'
      using Cons.IH [of st'] r' by simp
    have "extend (extend (print ?p st) d) d' = extend st (extend (extend (print ?p start_run) d) d')"
      by (simp add: extend_def)
    with None s [of st] s [of start_run] k show ?thesis by simp
  qed
qed

lemma subreddit_step_extend:
  "subreddit_step env ks sd ed lim so tf n st =
     extend st (subreddit_step env ks sd ed lim so tf n start_run)"
proof -
  let ?p = "[CHR 0x0A] @ ''Searching r/'' @ n @ ''...''"
  obtain e d where r: "keywords_loop env n sd ed lim so tf ks start_run = (e, d)"
    by (cases "keywords_loop env n sd ed lim so tf ks start_run")
  have k: "keywords_loop env n sd ed lim so tf ks st' = (e, extend st' d)" for st'
    using keywords_loop_extend [of env n sd ed lim so tf ks st'] r by simp
  show ?thesis
    by (cases e) (simp_all add: subreddit_step_def k extend_def)
qed

lemma subreddits_loop_extend:
  "subreddits_loop env ks sd ed lim so tf ns st =
     extend st (subreddits_loop env ks sd ed lim so tf ns start_run)"
proof (induction ns arbitrary: st)
  case Nil
  show ?case by simp
next
  case (Cons n ns)
  have "subreddits_loop env ks sd ed lim so tf (n # ns) st =
      extend (subreddit_step env ks sd ed lim so tf n st)
        (subreddits_loop env ks sd ed lim so tf ns start_run)"
    using Cons.IH [of "subreddit_step env ks sd ed lim so tf n st"] by simp
  also have "\<dots> = extend st (extend (subreddit_step env ks sd ed lim so tf n start_run)
        (subreddits_loop env ks sd ed lim so tf ns start_run))"
    using subreddit_step_extend [of env ks sd ed lim so tf n st] by (simp add: extend_assoc)
  also have "extend (subreddit_step env ks sd ed lim so tf n start_run)
        (subreddits_loop env ks sd ed lim so tf ns start_run) =
      subreddits_loop env ks sd ed lim so tf (n # ns) start_run"
    using Cons.IH [of "subreddit_step env ks sd ed lim so tf n start_run"] by simp
  finally show ?case .
qed

lemma subreddits_loop_append:
  "subreddits_loop env ks sd ed lim so tf (xs @ ys) st =
     subreddits_loop env ks sd ed lim so tf ys (subreddits_loop env ks sd ed lim so tf xs st)"
  by (induction xs arbitrary: st) simp_all

lemma drop_duplicates_from_keys:
  "key ` set (drop_duplicates_from key seen rs) = key ` set rs - set seen"
  by (induction rs arbitrary: seen) auto

lemma drop_duplicates_from_subset:
  "set (drop_duplicates_from key seen rs) \<subseteq> set rs"
  by (induction rs arbitrary: seen) auto

lemma drop_duplicates_from_distinct:
  "distinct (map key (drop_duplicates_from key seen rs))"
proof (induction rs arbitrary: seen)
  case Nil
  show ?case by simp
next
  case (Cons r rs)
  have "key r \<notin> key ` set (drop_duplicates_from key (key r # seen) rs)"
    by (simp add: drop_duplicates_from_keys)
  with Cons show ?case by simp
qed

lemma drop_duplicates_from_first:
  "r \<in> set (drop_duplicates_from key seen rs) \<Longrightarrow> find (\<lambda>x. key x = key r) rs = Some r"
proof (induction rs arbitrary: seen)
  case Nil
  then show ?case by simp
next
  case (Cons a rs)
  have fresh: "key r \<notin> set seen"
    using Cons.prems drop_duplicates_from_keys [of key seen "a # rs"] by blast
  show ?case
  proof (cases "key a \<in> set seen")
    case True
    with Cons.prems have "r \<in> set (drop_duplicates_from key seen rs)" by simp
    moreover from True fresh have "key a \<noteq> key r" by auto
    ultimately show ?thesis using Cons.IH by simp
  next
    case False
    show ?thesis
    proof (cases "r = a")
      case True
      then show ?thesis by simp
    next
      case neq: False
      with False Cons.prems have m: "r \<in> set (drop_duplicates_from key (key a # seen) rs)"
        by simp
      then have "key r \<notin> set (key a # seen)"
        using drop_duplicates_from_keys [of key "key a # seen" rs] by blast
      then have "key a \<noteq> key r" by auto
      with m Cons.IH show ?thesis by simp
    qed
  qed
qed

lemma distinct_map_filter_single:
  "distinct (map f xs) \<Longrightarrow> x \<in> set xs \<Longrightarrow> filter (\<lambda>y. f y = f x) xs = [x]"
proof (induction xs)
  case Nil
  then show ?case by simp
next
  case (Cons a xs)
  show ?case
  proof (cases "x = a")
    case True
    with Cons.prems have "\<forall>y\<in>set xs. f y \<noteq> f a" by (auto simp: image_iff)
    then have "filter (\<lambda>y. f y = f a) xs = []" by (simp add: filter_empty_conv)
    with True show ?thesis by simp
  next
    case False
    with Cons.prems have "x \<in> set xs" "f a \<noteq> f x" by auto
    with Cons show ?thesis by simp
  qed
qed

lemma find_append_first:
  "x \<in> set xs \<Longrightarrow> P x \<Longrightarrow> \<exists>y\<in>set xs. find P (xs @ ys) = Some y"
  by (induction xs) auto

lemma submissions_loop_collected:
  "collected (snd (submissions_loop env n k sd ed ss st)) =
     collected st @ collected (snd (submissions_loop env n k sd ed ss start_run))"
  using submissions_loop_extend [of env n k sd ed ss st] by simp

lemma submissions_loop_fst:
  "fst (submissions_loop env n k sd ed ss st) = fst (submissions_loop env n k sd ed ss start_run)"
  using submissions_loop_extend [of env n k sd ed ss st] by simp

lemma submissions_rows_Cons:
  "collected (snd (submissions_loop env n k sd ed (s # ss) start_run)) =
     (case fromtimestamp env (s_created_utc s) of
        Inl e \<Rightarrow> []
      | Inr d \<Rightarrow>
          (if before_start sd d \<or> after_end ed d then [] else [make_post n k d s]) @
          collected (snd (submissions_loop env n k sd ed ss start_run)))"
  by (simp add: submissions_loop_collected [of env n k sd ed ss "append_row r start_run" for r]
      split: sum.split)

lemma submissions_fst_Cons:
  "fst (submissions_loop env n k sd ed (s # ss) start_run) =
     (case fromtimestamp env (s_created_utc s) of
        Inl e \<Rightarrow> Some e
      | Inr d \<Rightarrow> fst (submissions_loop env n k sd ed ss start_run))"
  by (simp add: submissions_loop_fst [of env n k sd ed ss "append_row r start_run" for r]
      split: sum.split)

declare submissions_loop.simps(2) [simp del]

lemma submissions_rows_sound:
  "r \<in> set (collected (snd (submissions_loop env n k sd ed ss start_run))) \<Longrightarrow>
   \<exists>s\<in>set ss. \<exists>d. fromtimestamp env (s_created_utc s) = Inr d \<and>
      \<not> before_start sd d \<and> \<not> after_end ed d \<and> r = make_post n k d s"
proof (induction ss)
  case Nil
  then show ?case by simp
next
  case (Cons s ss)
  show ?case
  proof (cases "fromtimestamp env (s_created_utc s)")
    case (Inl e)
    with Cons.prems show ?thesis by (simp add: submissions_rows_Cons)
  next
    case (Inr d)
    with Cons.prems have
      "(r = make_post n k d s \<and> \<not> before_start sd d \<and> \<not> after_end ed d) \<or>
       r \<in> set (collected (snd (submissions_loop env n k sd ed ss start_run)))"
      by (auto simp: submissions_rows_Cons split: if_splits)
    then show ?thesis
    proof
      assume "r = make_post n k d s \<and> \<not> before_start sd d \<and> \<not> after_end ed d"
      with Inr show ?thesis by auto
    next
      assume "r \<in> set (collected (snd (submissions_loop env n k sd ed ss start_run)))"
      with Cons.IH show ?thesis by auto
    qed
  qed
qed

lemma submissions_rows_complete:
  "fst (submissions_loop env n k sd ed ss start_run) = None \<Longrightarrow> s \<in> set ss \<Longrightarrow>
   fromtimestamp env (s_created_utc s) = Inr d \<Longrightarrow> \<not> before_start sd d \<Longrightarrow> \<not> after_end ed d \<Longrightarrow>
   make_post n k d s \<in> set (collected (snd (submissions_loop env n k sd ed ss start_run)))"
proof (induction ss)
  case Nil
  then show ?case by simp
next
  case (Cons a ss)
  from Cons.prems(1) obtain da where da: "fromtimestamp env (s_created_utc a) = Inr da"
    and rest: "fst (submissions_loop env n k sd ed ss start_run) = None"
    by (auto simp: submissions_fst_Cons split: sum.splits)
  show ?case
  proof (cases "s = a")
    case True
    with Cons.prems da show ?thesis by (simp add: submissions_rows_Cons)
  next
    case False
    with Cons.prems have "s \<in> set ss" by simp
    with Cons.IH rest Cons.prems have
      "make_post n k d s \<in> set (collected (snd (submissions_loop env n k sd ed ss start_run)))"
      by simp
    with da show ?thesis by (simp add: submissions_rows_Cons)
  qed
qed

lemma search_loop_rows:
  "collected (snd (search_loop env n k sd ed l start_run)) =
     collected (snd (submissions_loop env n k sd ed (yielded l) start_run))"
  by (simp add: search_loop_def split: prod.split option.split)

lemma search_loop_fst:
  "fst (search_loop env n k sd ed l start_run) =
     (case fst (submissions_loop env n k sd ed (yielded l) start_run) of
        Some e \<Rightarrow> Some e
      | None \<Rightarrow> raised l)"
  by (simp add: search_loop_def split: prod.split option.split)

lemma keywords_rows_Cons:
  "collected (snd (keywords_loop env n sd ed lim so tf (k # ks) start_run)) =
     collected (snd (search_loop env n k sd ed (search env n k lim so tf) start_run)) @
     (case fst (search_loop env n k sd ed (search env n k lim so tf) start_run) of
        Some e \<Rightarrow> []
      | None \<Rightarrow> collected (snd (keywords_loop env n sd ed lim so tf ks start_run)))"
proof -
  let ?p = "''  Keyword: '' @ [CHR 0x27] @ k @ [CHR 0x27]"
  let ?l = "search env n k lim so tf"
  obtain e d where r: "search_loop env n k sd ed ?l start_run = (e, d)"
    by (cases "search_loop env n k sd ed ?l start_run")
  have s: "search_loop env n k sd ed ?l (print ?p start_run) = (e, extend (print ?p start_run) d)"
    using search_loop_extend [of env n k sd ed ?l "print ?p start_run"] r by simp
  show ?thesis
    using r s keywords_loop_extend [of env n sd ed lim so tf ks "extend (print ?p start_run) d"]
    by (cases e) simp_all
qed

lemma keywords_fst_Cons:
  "fst (keywords_loop env n sd ed lim so tf (k # ks) start_run) =
     (case fst (search_loop env n k sd ed (search env n k lim so tf) start_run) of
        Some e \<Rightarrow> Some e
      | None \<Rightarrow> fst (keywords_loop env n sd ed lim so tf ks start_run))"
proof -
  let ?p = "''  Keyword: '' @ [CHR 0x27] @ k @ [CHR 0x27]"
  let ?l = "search env n k lim so tf"
  obtain e d where r: "search_loop env n k sd ed ?l start_run = (e, d)"
    by (cases "search_loop env n k sd ed ?l start_run")
  have s: "search_loop env n k sd ed ?l (print ?p start_run) = (e, extend (print ?p start_run) d)"
    using search_loop_extend [of env n k sd ed ?l "print ?p start_run"] r by simp
  show ?thesis
    using r s keywords_loop_extend [of env n sd ed lim so tf ks "extend (print ?p start_run) d"]
    by (cases e) simp_all
qed

declare keywords_loop.simps(2) [simp del]

lemma community_rows_sound:
  "r \<in> set (community_rows env ks sd ed lim so tf n) \<Longrightarrow>
   \<exists>k\<in>set ks. \<exists>s\<in>set (yielded (search env n k lim so tf)). \<exists>d.
      fromtimestamp env (s_created_utc s) = Inr d \<and>
      \<not> before_start sd d \<and> \<not> after_end ed d \<and> r = make_post n k d s"
  unfolding community_rows_def
proof (induction ks)
  case Nil
  then show ?case by simp
next
  case (Cons k ks)
  from Cons.prems have
    "r \<in> set (collected (snd (submissions_loop env n k sd ed
                (yielded (search env n k lim so tf)) start_run))) \<or>
     r \<in> set (collected (snd (keywords_loop env n sd ed lim so tf ks start_run)))"
    by (auto simp: keywords_rows_Cons search_loop_rows split: option.splits)
  then show ?case
  proof
    assume "r \<in> set (collected (snd (submissions_loop env n k sd ed
                (yielded (search env n k lim so tf)) start_run)))"
    from submissions_rows_sound [OF this] show ?thesis by auto
  next
    assume "r \<in> set (collected (snd (keywords_loop env n sd ed lim so tf ks start_run)))"
    from Cons.IH [OF this] show ?thesis by auto
  qed
qed

lemma community_rows_complete:
  "community_error env ks sd ed lim so tf n = None \<Longrightarrow> k \<in> set ks \<Longrightarrow>
   s \<in> set (yielded (search env n k lim so tf)) \<Longrightarrow>
   fromtimestamp env (s_created_utc s) = Inr d \<Longrightarrow> \<not> before_start sd d \<Longrightarrow> \<not> after_end ed d \<Longrightarrow>
   make_post n k d s \<in> set (community_rows env ks sd ed lim so tf n)"
  unfolding community_rows_def community_error_def
proof (induction ks)
  case Nil
  then show ?case by simp
next
  case (Cons a ks)
  let ?l = "search env n a lim so tf"
  from Cons.prems(1) have ok: "fst (search_loop env n a sd ed ?l start_run) = None"
    and rest: "fst (keywords_loop env n sd ed lim so tf ks start_run) = None"
    by (auto simp: keywords_fst_Cons split: option.splits)
  from ok have sub: "fst (submissions_loop env n a sd ed (yielded ?l) start_run) = None"
    by (auto simp: search_loop_fst split: option.splits)
  show ?case
  proof (cases "k = a")
    case True
    with Cons.prems sub have
      "make_post n k d s \<in> set (collected (snd (submissions_loop env n a sd ed (yielded ?l) start_run)))"
      using submissions_rows_complete [of env n a sd ed "yielded ?l" s d] by simp
    then show ?thesis by (simp add: keywords_rows_Cons search_loop_rows)
  next
    case False
    with Cons.prems have "k \<in> set ks" by simp
    with Cons.IH rest Cons.prems have
      "make_post n k d s \<in> set (collected (snd (keywords_loop env n sd ed lim so tf ks start_run)))"
      by simp
    with ok show ?thesis by (simp add: keywords_rows_Cons)
  qed
qed

lemma subreddit_step_rows:
  "collected (subreddit_step env ks sd ed lim so tf n start_run) =
     community_rows env ks sd ed lim so tf n"
proof -
  let ?p = "[CHR 0x0A] @ ''Searching r/'' @ n @ ''...''"
  obtain e d where r: "keywords_loop env n sd ed lim so tf ks start_run = (e, d)"
    by (cases "keywords_loop env n sd ed lim so tf ks start_run")
  have k: "keywords_loop env n sd ed lim so tf ks (print ?p start_run) =
      (e, extend (print ?p start_run) d)"
    using keywords_loop_extend [of env n sd ed lim so tf ks "print ?p start_run"] r by simp
  show ?thesis
    using r k by (cases e) (simp_all add: subreddit_step_def community_rows_def)
qed

lemma subreddits_loop_rows:
  "collected (subreddits_loop env ks sd ed lim so tf ns start_run) =
     concat (map (community_rows env ks sd ed lim so tf) ns)"
proof (induction ns)
  case Nil
  show ?case by simp
next
  case (Cons n ns)
  have "collected (subreddits_loop env ks sd ed lim so tf (n # ns) start_run) =
      collected (subreddit_step env ks sd ed lim so tf n start_run) @
      collected (subreddits_loop env ks sd ed lim so tf ns start_run)"
    using subreddits_loop_extend [of env ks sd ed lim so tf ns
        "subreddit_step env ks sd ed lim so tf n start_run"]
    by simp
  with Cons show ?case by (simp add: subreddit_step_rows)
qed

lemma all_results_concat:
  "all_results env ns ks sd ed lim so tf = concat (map (community_rows env ks sd ed lim so tf) ns)"
  by (simp add: all_results_def subreddits_loop_rows)

lemma search_posts_table:
  "fst (search_posts env ns ks sd ed lim so tf) =
     drop_duplicates post_id (all_results env ns ks sd ed lim so tf)"
  by (simp add: search_posts_def all_results_def Let_def drop_duplicates_def)

lemma search_posts_keys:
  "post_id ` set (fst (search_posts env ns ks sd ed lim so tf)) =
     post_id ` set (all_results env ns ks sd ed lim so tf)"
  by (simp add: search_posts_table drop_duplicates_def drop_duplicates_from_keys)

lemma search_posts_subset:
  "set (fst (search_posts env ns ks sd ed lim so tf)) \<subseteq>
     set (all_results env ns ks sd ed lim so tf)"
  by (simp add: search_posts_table drop_duplicates_def drop_duplicates_from_subset)

lemma search_posts_distinct:
  "distinct (map post_id (fst (search_posts env ns ks sd ed lim so tf)))"
  by (simp add: search_posts_table drop_duplicates_def drop_duplicates_from_distinct)

lemma search_posts_first:
  "r \<in> set (fst (search_posts env ns ks sd ed lim so tf)) \<Longrightarrow>
   find (\<lambda>x. post_id x = post_id r) (all_results env ns ks sd ed lim so tf) = Some r"
  by (simp add: search_posts_table drop_duplicates_def drop_duplicates_from_first)

lemma first_pair_row:
  assumes p: "p \<in> set (yielded (search env n x lim so tf))"
    and ok: "fst (submissions_loop env n x sd ed (yielded (search env n x lim so tf)) start_run) = None"
    and d: "fromtimestamp env (s_created_utc p) = Inr d"
    and w: "\<not> before_start sd d" "\<not> after_end ed d"
  shows "\<exists>r. filter (\<lambda>r. post_id r = s_id p) (fst (search_posts env (n # ns) (x # ks) sd ed lim so tf)) = [r]
           \<and> subreddit r = n \<and> search_keyword r = x"
proof -
  let ?A = "collected (snd (submissions_loop env n x sd ed (yielded (search env n x lim so tf)) start_run))"
  let ?out = "fst (search_posts env (n # ns) (x # ks) sd ed lim so tf)"
  let ?all = "all_results env (n # ns) (x # ks) sd ed lim so tf"
  obtain B where all: "?all = ?A @ B"
    by (simp add: all_results_concat community_rows_def keywords_rows_Cons search_loop_rows)
  have "make_post n x d p \<in> set ?A"
    using submissions_rows_complete [OF ok p d w] .
  moreover have "post_id (make_post n x d p) = s_id p"
    by (simp add: make_post_def)
  ultimately obtain y where y: "y \<in> set ?A" and f: "find (\<lambda>r. post_id r = s_id p) ?all = Some y"
    using find_append_first [of "make_post n x d p" ?A "\<lambda>r. post_id r = s_id p" B] all by auto
  from f have idy: "post_id y = s_id p" and yall: "y \<in> set ?all"
    by (auto simp: find_Some_iff)
  from submissions_rows_sound [OF y] have tags: "subreddit y = n \<and> search_keyword y = x"
    by (auto simp: make_post_def)
  from yall have "post_id y \<in> post_id ` set ?out"
    by (simp add: search_posts_keys)
  then obtain r where r: "r \<in> set ?out" and idr: "post_id r = post_id y" by auto
  from search_posts_first [OF r] f idr idy have "r = y" by simp
  with r have "y \<in> set ?out" by simp
  then have "filter (\<lambda>r. post_id r = post_id y) ?out = [y]"
    using distinct_map_filter_single [of post_id ?out y] search_posts_distinct [of env "n # ns" "x # ks"]
    by simp
  with idy tags show ?thesis by auto
qed

section \<open>Deduplication of the Post table\<close>

text \<open>
  Claim C2. For every run of \<^verbatim>\<open>search_posts\<close> the returned table has no two rows
  with the same post identifier; it has a row for every identifier that was collected;
  and each of its rows is the first row with its identifier in the order of collection
  (\<open>all_results\<close>). In particular a post returned by the search for the first subreddit
  and the first keyword, converted and inside the date bounds, has exactly one row in
  the table, and that row is tagged with the first subreddit and the first keyword,
  whatever later searches return.
\<close>

theorem search_posts_unique_first_seen:
  "distinct (map post_id (fst (search_posts env subreddits keywords start_date end_date limit sort_mode time_filter)))
   \<and> post_id ` set (fst (search_posts env subreddits keywords start_date end_date limit sort_mode time_filter)) =
       post_id ` set (all_results env subreddits keywords start_date end_date limit sort_mode time_filter)
   \<and> (\<forall>r \<in> set (fst (search_posts env subreddits keywords start_date end_date limit sort_mode time_filter)).
         find (\<lambda>x. post_id x = post_id r)
           (all_results env subreddits keywords start_date end_date limit sort_mode time_filter) = Some r)
   \<and> (\<forall>n ns x ks p d.
         subreddits = n # ns \<and> keywords = x # ks
         \<and> p \<in> set (yielded (search env n x limit sort_mode time_filter))
         \<and> fst (submissions_loop env n x start_date end_date
                  (yielded (search env n x limit sort_mode time_filter)) start_run) = None
         \<and> fromtimestamp env (s_created_utc p) = Inr d
         \<and> \<not> before_start start_date d \<and> \<not> after_end end_date d
         \<longrightarrow> (\<exists>r. filter (\<lambda>r. post_id r = s_id p)
                     (fst (search_posts env subreddits keywords start_date end_date limit sort_mode time_filter)) = [r]
                  \<and> subreddit r = n \<and> search_keyword r = x))"
proof (intro conjI ballI allI impI)
  show "distinct (map post_id (fst (search_posts env subreddits keywords start_date end_date limit sort_mode time_filter)))"
    by (rule search_posts_distinct)
next
  show "post_id ` set (fst (search_posts env subreddits keywords start_date end_date limit sort_mode time_filter)) =
       post_id ` set (all_results env subreddits keywords start_date end_date limit sort_mode time_filter)"
    by (rule search_posts_keys)
next
  fix r
  assume "r \<in> set (fst (search_posts env subreddits keywords start_date end_date limit sort_mode time_filter))"
  then show "find (\<lambda>x. post_id x = post_id r)
           (all_results env subreddits keywords start_date end_date limit sort_mode time_filter) = Some r"
    by (rule search_posts_first)
next
  fix n ns x ks p d
  assume a: "subreddits = n # ns \<and> keywords = x # ks
         \<and> p \<in> set (yielded (search env n x limit sort_mode time_filter))
         \<and> fst (submissions_loop env n x start_date end_date
                  (yielded (search env n x limit sort_mode time_filter)) start_run) = None
         \<and> fromtimestamp env (s_created_utc p) = Inr d
         \<and> \<not> before_start start_date d \<and> \<not> after_end end_date d"
  then show "\<exists>r. filter (\<lambda>r. post_id r = s_id p)
                (fst (search_posts env subreddits keywords start_date end_date limit sort_mode time_filter)) = [r]
             \<and> subreddit r = n \<and> search_keyword r = x"
    using first_pair_row [of p env n x limit sort_mode time_filter start_date end_date d ns ks]
    by simp
qed

text \<open>
  The scenario of claim C2 on concrete data: the subreddit \<^verbatim>\<open>alpha\<close> returns the
  post \<^verbatim>\<open>P\<close> for both keywords \<^verbatim>\<open>x\<close> and \<^verbatim>\<open>y\<close>; two rows are
  collected and the table keeps one, tagged \<^verbatim>\<open>x\<close>.
\<close>

theorem search_posts_unique_first_seen_witness:
  "demo_submission ''P'' 100 \<in> set (yielded (search demo_reddit ''alpha'' ''x'' 100 ''relevance'' ''all''))
   \<and> fst (submissions_loop demo_reddit ''alpha'' ''x'' None None
            (yielded (search demo_reddit ''alpha'' ''x'' 100 ''relevance'' ''all'')) start_run) = None
   \<and> fromtimestamp demo_reddit (s_created_utc (demo_submission ''P'' 100)) = Inr 100
   \<and> distinct (map post_id
        (fst (search_posts demo_reddit [''alpha''] [''x'', ''y''] None None 100 ''relevance'' ''all'')))
   \<and> (\<exists>r. filter (\<lambda>r. post_id r = ''P'')
              (fst (search_posts demo_reddit [''alpha''] [''x'', ''y''] None None 100 ''relevance'' ''all'')) = [r]
            \<and> subreddit r = ''alpha'' \<and> search_keyword r = ''x'')
   \<and> map (\<lambda>r. (post_id r, search_keyword r))
        (all_results demo_reddit [''alpha''] [''x'', ''y''] None None 100 ''relevance'' ''all'') =
       [(''P'', ''x''), (''P'', ''y'')]"
proof -
  note t = search_posts_unique_first_seen [of demo_reddit "[''alpha'']" "[''x'', ''y'']" None None
      100 "''relevance''" "''all''"]
  have h1: "demo_submission ''P'' 100 \<in> set (yielded (search demo_reddit ''alpha'' ''x'' 100 ''relevance'' ''all''))"
    by (simp add: demo_reddit_def)
  have h2: "fst (submissions_loop demo_reddit ''alpha'' ''x'' None None
            (yielded (search demo_reddit ''alpha'' ''x'' 100 ''relevance'' ''all'')) start_run) = None"
    by code_simp
  have h3: "fromtimestamp demo_reddit (s_created_utc (demo_submission ''P'' 100)) = Inr 100"
    by (simp add: demo_reddit_def demo_submission_def)
  have h4: "\<not> before_start None 100 \<and> \<not> after_end None 100"
    by (simp add: before_start_def after_end_def)
  have h5: "s_id (demo_submission ''P'' 100) = ''P''"
    by (simp add: demo_submission_def)
  have all: "map (\<lambda>r. (post_id r, search_keyword r))
        (all_results demo_reddit [''alpha''] [''x'', ''y''] None None 100 ''relevance'' ''all'') =
       [(''P'', ''x''), (''P'', ''y'')]"
    by code_simp
  from t have d: "distinct (map post_id
        (fst (search_posts demo_reddit [''alpha''] [''x'', ''y''] None None 100 ''relevance'' ''all'')))"
    by blast
  from t have "\<forall>n ns x ks p d.
         [''alpha''] = n # ns \<and> [''x'', ''y''] = x # ks
         \<and> p \<in> set (yielded (search demo_reddit n x 100 ''relevance'' ''all''))
         \<and> fst (submissions_loop demo_reddit n x None None
                  (yielded (search demo_reddit n x 100 ''relevance'' ''all'')) start_run) = None
         \<and> fromtimestamp demo_reddit (s_created_utc p) = Inr d
         \<and> \<not> before_start None d \<and> \<not> after_end None d
         \<longrightarrow> (\<exists>r. filter (\<lambda>r. post_id r = s_id p)
                     (fst (search_posts demo_reddit [''alpha''] [''x'', ''y''] None None 100 ''relevance'' ''all'')) = [r]
                  \<and> subreddit r = n \<and> search_keyword r = x)"
    by blast
  from this [rule_format, of "''alpha''" "[]" "''x''" "[''y'']" "demo_submission ''P'' 100" 100]
    h1 h2 h3 h4
  have s: "\<exists>r. filter (\<lambda>r. post_id r = ''P'')
              (fst (search_posts demo_reddit [''alpha''] [''x'', ''y''] None None 100 ''relevance'' ''all'')) = [r]
            \<and> subreddit r = ''alpha'' \<and> search_keyword r = ''x''"
    by (simp add: h5)
  from h1 h2 h3 d s all show ?thesis by blast
qed

section \<open>Date bounds\<close>

lemma all_results_sound:
  "r \<in> set (all_results env ns ks sd ed lim so tf) \<Longrightarrow>
   \<exists>n\<in>set ns. \<exists>k\<in>set ks. \<exists>s\<in>set (yielded (search env n k lim so tf)). \<exists>d.
      fromtimestamp env (s_created_utc s) = Inr d \<and>
      \<not> before_start sd d \<and> \<not> after_end ed d \<and> r = make_post n k d s"
proof -
  assume "r \<in> set (all_results env ns ks sd ed lim so tf)"
  then obtain n where n: "n \<in> set ns" and r: "r \<in> set (community_rows env ks sd ed lim so tf n)"
    by (auto simp: all_results_concat)
  from community_rows_sound [OF r] n show ?thesis by blast
qed

lemma all_results_complete:
  "n \<in> set ns \<Longrightarrow> community_error env ks sd ed lim so tf n = None \<Longrightarrow> k \<in> set ks \<Longrightarrow>
   s \<in> set (yielded (search env n k lim so tf)) \<Longrightarrow>
   fromtimestamp env (s_created_utc s) = Inr d \<Longrightarrow> \<not> before_start sd d \<Longrightarrow> \<not> after_end ed d \<Longrightarrow>
   make_post n k d s \<in> set (all_results env ns ks sd ed lim so tf)"
  using community_rows_complete [of env ks sd ed lim so tf n k s d]
  by (auto simp: all_results_concat)

lemma all_results_in_window:
  assumes "r \<in> set (all_results env ns ks sd ed lim so tf)"
  shows "(\<forall>b. sd = Some b \<longrightarrow> b \<le> created_utc r) \<and> (\<forall>b. ed = Some b \<longrightarrow> created_utc r \<le> b)"
proof -
  from all_results_sound [OF assms] obtain n k s d where
    w: "\<not> before_start sd d" "\<not> after_end ed d" and r: "r = make_post n k d s"
    by blast
  from r have "created_utc r = d" by (simp add: make_post_def)
  with w show ?thesis by (auto simp: before_start_def after_end_def)
qed

text \<open>
  Claim C3. With optional date bounds, no row of the table returned by
  \<^verbatim>\<open>search_posts\<close> has a creation time strictly before the start bound or strictly
  after the end bound, so a post converted to such a time has no row. Both bounds are
  inclusive: a post that a search yields in a subreddit whose block raises nothing, and
  whose creation time is at or after the start bound and at or before the end bound
  (equal to a bound included), has its identifier in the table.
\<close>

theorem search_posts_date_bounds:
  "(\<forall>r \<in> set (fst (search_posts env subreddits keywords start_date end_date limit sort_mode time_filter)).
      (\<forall>b. start_date = Some b \<longrightarrow> b \<le> created_utc r) \<and>
      (\<forall>b. end_date = Some b \<longrightarrow> created_utc r \<le> b))
   \<and> (\<forall>n k s d b. (start_date = Some b \<and> d < b) \<or> (end_date = Some b \<and> b < d) \<longrightarrow>
        make_post n k d s \<notin>
          set (fst (search_posts env subreddits keywords start_date end_date limit sort_mode time_filter)))
   \<and> (\<forall>n k s d.
        n \<in> set subreddits \<and> k \<in> set keywords
        \<and> s \<in> set (yielded (search env n k limit sort_mode time_filter))
        \<and> community_error env keywords start_date end_date limit sort_mode time_filter n = None
        \<and> fromtimestamp env (s_created_utc s) = Inr d
        \<and> (\<forall>b. start_date = Some b \<longrightarrow> b \<le> d) \<and> (\<forall>b. end_date = Some b \<longrightarrow> d \<le> b)
        \<longrightarrow> s_id s \<in> post_id `
              set (fst (search_posts env subreddits keywords start_date end_date limit sort_mode time_filter)))"
proof -
  let ?out = "fst (search_posts env subreddits keywords start_date end_date limit sort_mode time_filter)"
  let ?all = "all_results env subreddits keywords start_date end_date limit sort_mode time_filter"
  have sub: "set ?out \<subseteq> set ?all" by (rule search_posts_subset)
  have a: "(\<forall>b. start_date = Some b \<longrightarrow> b \<le> created_utc r) \<and>
      (\<forall>b. end_date = Some b \<longrightarrow> created_utc r \<le> b)" if "r \<in> set ?out" for r
    using that sub all_results_in_window [of r env subreddits "keywords" start_date end_date
        limit sort_mode time_filter]
    by blast
  have b: "make_post n k d s \<notin> set ?out"
    if "(start_date = Some b \<and> d < b) \<or> (end_date = Some b \<and> b < d)" for n k s d b
  proof
    assume "make_post n k d s \<in> set ?out"
    from a [OF this] have "(\<forall>b. start_date = Some b \<longrightarrow> b \<le> d) \<and> (\<forall>b. end_date = Some b \<longrightarrow> d \<le> b)"
      by (simp add: make_post_def)
    with that show False by auto
  qed
  have c: "s_id s \<in> post_id ` set ?out"
    if "n \<in> set subreddits \<and> k \<in> set keywords
        \<and> s \<in> set (yielded (search env n k limit sort_mode time_filter))
        \<and> community_error env keywords start_date end_date limit sort_mode time_filter n = None
        \<and> fromtimestamp env (s_created_utc s) = Inr d
        \<and> (\<forall>b. start_date = Some b \<longrightarrow> b \<le> d) \<and> (\<forall>b. end_date = Some b \<longrightarrow> d \<le> b)"
    for n k s d
  proof -
    from that have w: "\<not> before_start start_date d" "\<not> after_end end_date d"
      by (auto simp: before_start_def after_end_def split: option.splits)
    from that w have "make_post n k d s \<in> set ?all"
      using all_results_complete [of n subreddits env "keywords" start_date end_date limit
          sort_mode time_filter k s d]
      by blast
    then have "post_id (make_post n k d s) \<in> post_id ` set ?all" by (rule imageI)
    then show ?thesis by (simp add: search_posts_keys make_post_def)
  qed
  from a b c show ?thesis by blast
qed

text \<open>
  Claim C3 on concrete data: posts created at 9, 10, 20 and 21 with the bounds 10 and
  20; the table holds the two posts created exactly at the bounds and no other.
\<close>

theorem search_posts_date_bounds_witness:
  "''dated'' \<in> set [''dated''] \<and> ''x'' \<in> set [''x'']
   \<and> demo_submission ''at_start'' 10 \<in> set (yielded (search demo_reddit ''dated'' ''x'' 100 ''relevance'' ''all''))
   \<and> community_error demo_reddit [''x''] (Some 10) (Some 20) 100 ''relevance'' ''all'' ''dated'' = None
   \<and> fromtimestamp demo_reddit (s_created_utc (demo_submission ''at_start'' 10)) = Inr 10
   \<and> s_id (demo_submission ''at_start'' 10) \<in> post_id `
        set (fst (search_posts demo_reddit [''dated''] [''x''] (Some 10) (Some 20) 100 ''relevance'' ''all''))
   \<and> map (\<lambda>r. (post_id r, created_utc r))
        (fst (search_posts demo_reddit [''dated''] [''x''] (Some 10) (Some 20) 100 ''relevance'' ''all'')) =
       [(''at_start'', 10), (''at_end'', 20)]"
proof -
  note t = search_posts_date_bounds [of demo_reddit "[''dated'']" "[''x'']" "Some 10" "Some 20"
      100 "''relevance''" "''all''"]
  have h1: "demo_submission ''at_start'' 10 \<in>
      set (yielded (search demo_reddit ''dated'' ''x'' 100 ''relevance'' ''all''))"
    by (simp add: demo_reddit_def)
  have h2: "community_error demo_reddit [''x''] (Some 10) (Some 20) 100 ''relevance'' ''all'' ''dated'' = None"
    by code_simp
  have h3: "fromtimestamp demo_reddit (s_created_utc (demo_submission ''at_start'' 10)) = Inr 10"
    by (simp add: demo_reddit_def demo_submission_def)
  have ev: "map (\<lambda>r. (post_id r, created_utc r))
        (fst (search_posts demo_reddit [''dated''] [''x''] (Some 10) (Some 20) 100 ''relevance'' ''all'')) =
       [(''at_start'', 10), (''at_end'', 20)]"
    by code_simp
  from t have "\<forall>n k s d.
        n \<in> set [''dated''] \<and> k \<in> set [''x'']
        \<and> s \<in> set (yielded (search demo_reddit n k 100 ''relevance'' ''all''))
        \<and> community_error demo_reddit [''x''] (Some 10) (Some 20) 100 ''relevance'' ''all'' n = None
        \<and> fromtimestamp demo_reddit (s_created_utc s) = Inr d
        \<and> (\<forall>b. Some 10 = Some b \<longrightarrow> b \<le> d) \<and> (\<forall>b. Some 20 = Some b \<longrightarrow> d \<le> b)
        \<longrightarrow> s_id s \<in> post_id `
              set (fst (search_posts demo_reddit [''dated''] [''x''] (Some 10) (Some 20) 100 ''relevance'' ''all''))"
    by blast
  from this [rule_format, of "''dated''" "''x''" "demo_submission ''at_start'' 10" 10] h1 h2 h3
  have c: "s_id (demo_submission ''at_start'' 10) \<in> post_id `
        set (fst (search_posts demo_reddit [''dated''] [''x''] (Some 10) (Some 20) 100 ''relevance'' ''all''))"
    by simp
  from h1 h2 h3 c ev show ?thesis by simp
qed

section \<open>A subreddit whose search raises\<close>

lemma keywords_loop_append:
  "fst (keywords_loop env n sd ed lim so tf ks1 start_run) = None \<Longrightarrow>
   collected (snd (keywords_loop env n sd ed lim so tf (ks1 @ ks2) start_run)) =
     collected (snd (keywords_loop env n sd ed lim so tf ks1 start_run)) @
     collected (snd (keywords_loop env n sd ed lim so tf ks2 start_run))
   \<and> fst (keywords_loop env n sd ed lim so tf (ks1 @ ks2) start_run) =
     fst (keywords_loop env n sd ed lim so tf ks2 start_run)"
proof (induction ks1)
  case Nil
  show ?case by simp
next
  case (Cons k ks1)
  from Cons.prems have ok: "fst (search_loop env n k sd ed (search env n k lim so tf) start_run) = None"
    and rest: "fst (keywords_loop env n sd ed lim so tf ks1 start_run) = None"
    by (auto simp: keywords_fst_Cons split: option.splits)
  from Cons.IH [OF rest] ok show ?case
    by (simp add: keywords_rows_Cons keywords_fst_Cons)
qed

lemma community_raise_at:
  assumes before: "fst (keywords_loop env n sd ed lim so tf ks1 start_run) = None"
    and bad: "fst (search_loop env n k sd ed (search env n k lim so tf) start_run) = Some e"
  shows "community_error env (ks1 @ k # ks2) sd ed lim so tf n = Some e"
    and "community_rows env (ks1 @ k # ks2) sd ed lim so tf n =
           community_rows env ks1 sd ed lim so tf n @
           collected (snd (search_loop env n k sd ed (search env n k lim so tf) start_run))"
  using keywords_loop_append [OF before, of "k # ks2"] bad
  by (simp_all add: community_error_def community_rows_def keywords_rows_Cons keywords_fst_Cons)

lemma community_raise_at_once:
  assumes "search env n k lim so tf = Listing [] (Some e)"
  shows "community_error env (k # ks) sd ed lim so tf n = Some e"
    and "community_rows env (k # ks) sd ed lim so tf n = []"
  using assms
  by (simp_all add: community_error_def community_rows_def keywords_rows_Cons keywords_fst_Cons
      search_loop_fst search_loop_rows)

lemma all_results_append:
  "all_results env (xs @ ys) ks sd ed lim so tf =
     all_results env xs ks sd ed lim so tf @ all_results env ys ks sd ed lim so tf"
  by (simp add: all_results_concat)

lemma all_results_split:
  "all_results env (before @ n # after) ks sd ed lim so tf =
     all_results env before ks sd ed lim so tf @ community_rows env ks sd ed lim so tf n @
     all_results env after ks sd ed lim so tf"
  by (simp add: all_results_concat)

lemma subreddit_step_printed:
  "printed (subreddit_step env ks sd ed lim so tf n start_run) =
     ([CHR 0x0A] @ ''Searching r/'' @ n @ ''...'') #
     printed (snd (keywords_loop env n sd ed lim so tf ks start_run)) @
     (case community_error env ks sd ed lim so tf n of
        None \<Rightarrow> []
      | Some e \<Rightarrow> [''  Error in r/'' @ n @ '': '' @ e])"
proof -
  let ?p = "[CHR 0x0A] @ ''Searching r/'' @ n @ ''...''"
  obtain e d where r: "keywords_loop env n sd ed lim so tf ks start_run = (e, d)"
    by (cases "keywords_loop env n sd ed lim so tf ks start_run")
  have k: "keywords_loop env n sd ed lim so tf ks (print ?p start_run) =
      (e, extend (print ?p start_run) d)"
    using keywords_loop_extend [of env n sd ed lim so tf ks "print ?p start_run"] r by simp
  show ?thesis
    using r k by (cases e) (simp_all add: subreddit_step_def community_error_def)
qed

lemma subreddits_loop_printed:
  "n \<in> set ns \<Longrightarrow>
   set (printed (subreddit_step env ks sd ed lim so tf n start_run)) \<subseteq>
   set (printed (subreddits_loop env ks sd ed lim so tf ns start_run))"
proof (induction ns)
  case Nil
  then show ?case by simp
next
  case (Cons a ns)
  have p: "printed (subreddits_loop env ks sd ed lim so tf (a # ns) start_run) =
      printed (subreddit_step env ks sd ed lim so tf a start_run) @
      printed (subreddits_loop env ks sd ed lim so tf ns start_run)"
    using subreddits_loop_extend [of env ks sd ed lim so tf ns
        "subreddit_step env ks sd ed lim so tf a start_run"]
    by simp
  show ?case
  proof (cases "n = a")
    case True
    with p show ?thesis by auto
  next
    case False
    with Cons have "set (printed (subreddit_step env ks sd ed lim so tf n start_run)) \<subseteq>
        set (printed (subreddits_loop env ks sd ed lim so tf ns start_run))"
      by simp
    with p show ?thesis by auto
  qed
qed

lemma search_posts_printed:
  "set (printed (subreddits_loop env ks sd ed lim so tf ns start_run)) \<subseteq>
   set (snd (search_posts env ns ks sd ed lim so tf))"
proof (cases "collected (subreddits_loop env ks sd ed lim so tf ns start_run)")
  case Nil
  then show ?thesis by (simp add: search_posts_def)
next
  case (Cons a as)
  then show ?thesis by (simp add: search_posts_def Let_def subset_insertI2)
qed

lemma error_line_printed:
  assumes "n \<in> set ns" and "community_error env ks sd ed lim so tf n = Some e"
  shows "''  Error in r/'' @ n @ '': '' @ e \<in> set (snd (search_posts env ns ks sd ed lim so tf))"
proof -
  from assms(2) have "''  Error in r/'' @ n @ '': '' @ e \<in>
      set (printed (subreddit_step env ks sd ed lim so tf n start_run))"
    by (simp add: subreddit_step_printed)
  then have "''  Error in r/'' @ n @ '': '' @ e \<in>
      set (printed (subreddits_loop env ks sd ed lim so tf ns start_run))"
    by (rule subsetD [OF subreddits_loop_printed [OF assms(1)], rotated])
  then show ?thesis
    by (rule subsetD [OF search_posts_printed, rotated])
qed

lemma other_rows_in_table:
  assumes "m \<in> set ns" and "r \<in> set (community_rows env ks sd ed lim so tf m)"
  shows "post_id r \<in> post_id ` set (fst (search_posts env ns ks sd ed lim so tf))"
proof -
  from assms have "r \<in> set (all_results env ns ks sd ed lim so tf)"
    by (auto simp: all_results_concat)
  then have "post_id r \<in> post_id ` set (all_results env ns ks sd ed lim so tf)" by (rule imageI)
  then show ?thesis by (simp add: search_posts_keys)
qed

text \<open>
  Claim C6, as the code has it. The handler catches the exception of a subreddit's
  search, prints it, and the loop goes on: the collected list of a run is the
  concatenation of what each listed subreddit contributes, and what a subreddit
  contributes depends on that subreddit alone, so a failing subreddit leaves the rows of
  every other subreddit as they are, and each of their post identifiers is in the
  returned table. The failing subreddit is not skipped entirely: the rest of its block is
  skipped (what the failing search had not yet yielded, and all later keywords), while
  the rows appended before the raise stay. It contributes no row when its first search
  raises before yielding anything, as for a subreddit that does not exist.
\<close>

theorem search_posts_subreddit_error:
  "all_results env (before @ n # after) keywords start_date end_date limit sort_mode time_filter =
     all_results env before keywords start_date end_date limit sort_mode time_filter @
     community_rows env keywords start_date end_date limit sort_mode time_filter n @
     all_results env after keywords start_date end_date limit sort_mode time_filter
   \<and> (\<forall>m\<in>set before \<union> set after.
        \<forall>r\<in>set (community_rows env keywords start_date end_date limit sort_mode time_filter m).
          post_id r \<in> post_id ` set (fst (search_posts env (before @ n # after) keywords
                                             start_date end_date limit sort_mode time_filter)))
   \<and> (\<forall>e. community_error env keywords start_date end_date limit sort_mode time_filter n = Some e \<longrightarrow>
        ''  Error in r/'' @ n @ '': '' @ e \<in>
          set (snd (search_posts env (before @ n # after) keywords
                      start_date end_date limit sort_mode time_filter)))
   \<and> (\<forall>ks1 k ks2 e.
        keywords = ks1 @ k # ks2
        \<and> community_error env ks1 start_date end_date limit sort_mode time_filter n = None
        \<and> fst (search_loop env n k start_date end_date
                 (search env n k limit sort_mode time_filter) start_run) = Some e
        \<longrightarrow> community_error env keywords start_date end_date limit sort_mode time_filter n = Some e
          \<and> community_rows env keywords start_date end_date limit sort_mode time_filter n =
              community_rows env ks1 start_date end_date limit sort_mode time_filter n @
              collected (snd (search_loop env n k start_date end_date
                                (search env n k limit sort_mode time_filter) start_run)))
   \<and> (\<forall>k ks e.
        keywords = k # ks \<and> search env n k limit sort_mode time_filter = Listing [] (Some e)
        \<longrightarrow> community_error env keywords start_date end_date limit sort_mode time_filter n = Some e
          \<and> community_rows env keywords start_date end_date limit sort_mode time_filter n = [])"
proof (intro conjI ballI allI impI)
  show "all_results env (before @ n # after) keywords start_date end_date limit sort_mode time_filter =
     all_results env before keywords start_date end_date limit sort_mode time_filter @
     community_rows env keywords start_date end_date limit sort_mode time_filter n @
     all_results env after keywords start_date end_date limit sort_mode time_filter"
    by (rule all_results_split)
next
  fix m r
  assume m: "m \<in> set before \<union> set after"
    and r: "r \<in> set (community_rows env keywords start_date end_date limit sort_mode time_filter m)"
  from m have "m \<in> set (before @ n # after)" by auto
  from other_rows_in_table [OF this r]
  show "post_id r \<in> post_id ` set (fst (search_posts env (before @ n # after) keywords
                                             start_date end_date limit sort_mode time_filter))" .
next
  fix e
  assume e: "community_error env keywords start_date end_date limit sort_mode time_filter n = Some e"
  have "n \<in> set (before @ n # after)" by simp
  from error_line_printed [OF this e]
  show "''  Error in r/'' @ n @ '': '' @ e \<in>
          set (snd (search_posts env (before @ n # after) keywords
                      start_date end_date limit sort_mode time_filter))" .
next
  fix ks1 k ks2 e
  assume a: "keywords = ks1 @ k # ks2
        \<and> community_error env ks1 start_date end_date limit sort_mode time_filter n = None
        \<and> fst (search_loop env n k start_date end_date
                 (search env n k limit sort_mode time_filter) start_run) = Some e"
  then have b: "fst (keywords_loop env n start_date end_date limit sort_mode time_filter ks1 start_run) = None"
    by (simp add: community_error_def)
  from a have c: "fst (search_loop env n k start_date end_date
                 (search env n k limit sort_mode time_filter) start_run) = Some e"
    by simp
  from a community_raise_at(1) [OF b c, of ks2]
  show "community_error env keywords start_date end_date limit sort_mode time_filter n = Some e"
    by simp
  from a community_raise_at(2) [OF b c, of ks2]
  show "community_rows env keywords start_date end_date limit sort_mode time_filter n =
              community_rows env ks1 start_date end_date limit sort_mode time_filter n @
              collected (snd (search_loop env n k start_date end_date
                                (search env n k limit sort_mode time_filter) start_run))"
    by simp
next
  fix k ks e
  assume a: "keywords = k # ks \<and> search env n k limit sort_mode time_filter = Listing [] (Some e)"
  then have s: "search env n k limit sort_mode time_filter = Listing [] (Some e)" by simp
  from a community_raise_at_once(1) [OF s, of ks start_date end_date]
  show "community_error env keywords start_date end_date limit sort_mode time_filter n = Some e"
    by simp
  from a community_raise_at_once(2) [OF s, of ks start_date end_date]
  show "community_rows env keywords start_date end_date limit sort_mode time_filter n = []"
    by simp
qed

text \<open>
  Claim C6 as stated fails: the subreddit \<^verbatim>\<open>flaky\<close> answers the keyword
  \<^verbatim>\<open>x\<close> with the post \<^verbatim>\<open>Q\<close> and raises on the keyword \<^verbatim>\<open>y\<close>. The error
  is caught, and the table still holds the row of \<^verbatim>\<open>Q\<close>, tagged
  \<^verbatim>\<open>flaky\<close>: the subreddit is not skipped entirely.
\<close>

theorem search_posts_subreddit_error_counterexample:
  "community_error demo_reddit [''x'', ''y''] None None 100 ''relevance'' ''all'' ''flaky'' =
     Some ''timed out''
   \<and> map (\<lambda>r. (subreddit r, search_keyword r, post_id r))
        (fst (search_posts demo_reddit [''flaky'', ''alpha''] [''x'', ''y''] None None 100
                ''relevance'' ''all'')) =
       [(''flaky'', ''x'', ''Q''), (''alpha'', ''x'', ''P'')]"
  by code_simp

text \<open>
  Claim C6 on concrete data, the scenario of the specification: \<^verbatim>\<open>ghost\<close> does not
  exist, its first search raises at once, the error is printed, \<^verbatim>\<open>ghost\<close>
  contributes no row, and the posts of \<^verbatim>\<open>alpha\<close> and \<^verbatim>\<open>dated\<close> are returned.
\<close>

theorem search_posts_subreddit_error_witness:
  "search demo_reddit ''ghost'' ''x'' 100 ''relevance'' ''all'' =
     Listing [] (Some ''received 404 HTTP response'')
   \<and> community_error demo_reddit [''x'', ''y''] None None 100 ''relevance'' ''all'' ''ghost'' =
       Some ''received 404 HTTP response''
   \<and> community_rows demo_reddit [''x'', ''y''] None None 100 ''relevance'' ''all'' ''ghost'' = []
   \<and> ''  Error in r/ghost: received 404 HTTP response'' \<in>
       set (snd (search_posts demo_reddit ([''alpha''] @ ''ghost'' # [''dated'']) [''x'', ''y'']
                   None None 100 ''relevance'' ''all''))
   \<and> all_results demo_reddit ([''alpha''] @ ''ghost'' # [''dated'']) [''x'', ''y'']
        None None 100 ''relevance'' ''all'' =
      all_results demo_reddit [''alpha''] [''x'', ''y''] None None 100 ''relevance'' ''all'' @
      all_results demo_reddit [''dated''] [''x'', ''y''] None None 100 ''relevance'' ''all''
   \<and> map post_id
        (fst (search_posts demo_reddit ([''alpha''] @ ''ghost'' # [''dated'']) [''x'', ''y'']
                None None 100 ''relevance'' ''all'')) =
       [''P'', ''early'', ''at_start'', ''at_end'', ''late'']"
proof -
  note t = search_posts_subreddit_error [of demo_reddit "[''alpha'']" "''ghost''" "[''dated'']"
      "[''x'', ''y'']" None None 100 "''relevance''" "''all''"]
  have h: "search demo_reddit ''ghost'' ''x'' 100 ''relevance'' ''all'' =
     Listing [] (Some ''received 404 HTTP response'')"
    by (simp add: demo_reddit_def)
  from t have "\<forall>k ks e.
        [''x'', ''y''] = k # ks \<and> search demo_reddit ''ghost'' k 100 ''relevance'' ''all'' = Listing [] (Some e)
        \<longrightarrow> community_error demo_reddit [''x'', ''y''] None None 100 ''relevance'' ''all'' ''ghost'' = Some e
          \<and> community_rows demo_reddit [''x'', ''y''] None None 100 ''relevance'' ''all'' ''ghost'' = []"
    by (elim conjE)
  from this [rule_format, of "''x''" "[''y'']" "''received 404 HTTP response''"] h
  have e: "community_error demo_reddit [''x'', ''y''] None None 100 ''relevance'' ''all'' ''ghost'' =
       Some ''received 404 HTTP response''"
    and z: "community_rows demo_reddit [''x'', ''y''] None None 100 ''relevance'' ''all'' ''ghost'' = []"
    by simp_all
  from t have "\<forall>e. community_error demo_reddit [''x'', ''y''] None None 100 ''relevance'' ''all'' ''ghost'' = Some e \<longrightarrow>
        ''  Error in r/'' @ ''ghost'' @ '': '' @ e \<in>
          set (snd (search_posts demo_reddit ([''alpha''] @ ''ghost'' # [''dated'']) [''x'', ''y'']
                      None None 100 ''relevance'' ''all''))"
    by (elim conjE)
  from this [rule_format, OF e]
  have p: "''  Error in r/ghost: received 404 HTTP response'' \<in>
       set (snd (search_posts demo_reddit ([''alpha''] @ ''ghost'' # [''dated'']) [''x'', ''y'']
                   None None 100 ''relevance'' ''all''))"
    by simp
  from t have "all_results demo_reddit ([''alpha''] @ ''ghost'' # [''dated'']) [''x'', ''y'']
        None None 100 ''relevance'' ''all'' =
      all_results demo_reddit [''alpha''] [''x'', ''y''] None None 100 ''relevance'' ''all'' @
      community_rows demo_reddit [''x'', ''y''] None None 100 ''relevance'' ''all'' ''ghost'' @
      all_results demo_reddit [''dated''] [''x'', ''y''] None None 100 ''relevance'' ''all''"
    by (elim conjE)
  with z have a: "all_results demo_reddit ([''alpha''] @ ''ghost'' # [''dated'']) [''x'', ''y'']
        None None 100 ''relevance'' ''all'' =
      all_results demo_reddit [''alpha''] [''x'', ''y''] None None 100 ''relevance'' ''all'' @
      all_results demo_reddit [''dated''] [''x'', ''y''] None None 100 ''relevance'' ''all''"
    by simp
  have ev: "map post_id
        (fst (search_posts demo_reddit ([''alpha''] @ ''ghost'' # [''dated'']) [''x'', ''y'']
                None None 100 ''relevance'' ''all'')) =
       [''P'', ''early'', ''at_start'', ''at_end'', ''late'']"
    by code_simp
  show ?thesis
    by (intro conjI) (rule h, rule e, rule z, rule p, rule a, rule ev)
qed

section \<open>The comment loops\<close>

lemma comments_loop_printed:
  "comments_loop env pid lim cs st =
     (case comments_loop env pid lim cs (st\<lparr>printed := []\<rparr>) of
        (e, d) \<Rightarrow> (e, d\<lparr>printed := printed st\<rparr>))"
proof (induction env pid lim cs st rule: comments_loop.induct)
  case (1 env pid limit st)
  show ?case by simp
next
  case (2 env pid limit hs cs st)
  then show ?case by simp
next
  case (3 env pid limit c rs cs st)
  show ?case
  proof (cases "fromtimestamp env (k_created_utc c)")
    case (Inl e)
    then show ?thesis by simp
  next
    case (Inr created)
    let ?r = "make_comment pid created c"
    have eq: "(append_row ?r st)\<lparr>printed := []\<rparr> = append_row ?r (st\<lparr>printed := []\<rparr>)"
      by (simp add: append_row_def)
    show ?thesis
    proof (cases "limit_reached limit (length (collected (append_row ?r st)))")
      case True
      with Inr show ?thesis by (simp add: Let_def append_row_def)
    next
      case False
      from "3.IH" [OF Inr refl False] eq
      have "comments_loop env pid limit cs (append_row ?r st) =
          (case comments_loop env pid limit cs (append_row ?r (st\<lparr>printed := []\<rparr>)) of
             (e, d) \<Rightarrow> (e, d\<lparr>printed := printed st\<rparr>))"
        by simp
      with Inr False show ?thesis by (simp add: Let_def)
    qed
  qed
qed

lemma collect_post_printed:
  "collect_post env tlo lim pid st =
     (case collect_post env tlo lim pid (st\<lparr>printed := []\<rparr>) of
        (e, d) \<Rightarrow> (e, d\<lparr>printed := printed st\<rparr>))"
proof (cases "fetch_comments env pid")
  case (Inl e)
  then show ?thesis by (simp add: collect_post_def)
next
  case (Inr forest)
  then show ?thesis
    using comments_loop_printed [of env pid lim _ st]
    by (simp add: collect_post_def Let_def)
qed

lemma rows_only: "st\<lparr>printed := []\<rparr> = \<lparr>collected = collected st, printed = []\<rparr>"
  by simp

lemma collect_post_rows:
  "collected (snd (collect_post env tlo lim pid st)) = post_rows env tlo lim (collected st) pid"
  using collect_post_printed [of env tlo lim pid st]
  by (simp add: post_rows_def rows_only split: prod.splits)

lemma collect_post_prints_nothing:
  "printed (snd (collect_post env tlo lim pid st)) = printed st"
  using collect_post_printed [of env tlo lim pid st]
  by (simp split: prod.splits)

lemma post_step_rows:
  "collected (post_step env tlo lim np idx pid st) = post_rows env tlo lim (collected st) pid"
proof -
  let ?st = "print (''Collecting comments from post '' @ str_nat (idx + 1) @ ''/'' @ str_nat np) st"
  obtain e d where r: "collect_post env tlo lim pid ?st = (e, d)"
    by (cases "collect_post env tlo lim pid ?st")
  have "collected d = post_rows env tlo lim (collected ?st) pid"
    using collect_post_rows [of env tlo lim pid ?st] r by simp
  with r show ?thesis by (cases e) (simp_all add: post_step_def)
qed

lemma posts_loop_rows:
  "collected (posts_loop env tlo lim np idx ps st) = foldl (post_rows env tlo lim) (collected st) ps"
  by (induction ps arbitrary: idx st) (simp_all add: post_step_rows)

lemma get_comments_table:
  "fst (get_comments env ps tlo lim) = foldl (post_rows env tlo lim) [] ps"
  by (simp add: get_comments_def Let_def posts_loop_rows)

lemma post_rows_fetch_fails:
  "fetch_comments env pid = Inl e \<Longrightarrow> post_rows env tlo lim acc pid = acc"
  by (simp add: post_rows_def collect_post_def)

lemma comments_loop_grows:
  "\<exists>new. collected (snd (comments_loop env pid lim cs st)) = collected st @ new
     \<and> (\<forall>r\<in>set new. c_post_id r = pid)"
proof (induction env pid lim cs st rule: comments_loop.induct)
  case (1 env pid limit st)
  show ?case by simp
next
  case (2 env pid limit hs cs st)
  then show ?case by simp
next
  case (3 env pid limit c rs cs st)
  show ?case
  proof (cases "fromtimestamp env (k_created_utc c)")
    case (Inl e)
    then show ?thesis by simp
  next
    case (Inr created)
    let ?r = "make_comment pid created c"
    have p: "c_post_id ?r = pid" by (simp add: make_comment_def)
    show ?thesis
    proof (cases "limit_reached limit (length (collected (append_row ?r st)))")
      case True
      with Inr p show ?thesis by (simp add: Let_def)
    next
      case False
      from "3.IH" [OF Inr refl False] obtain new where
        n: "collected (snd (comments_loop env pid limit cs (append_row ?r st))) =
              collected (append_row ?r st) @ new"
        and a: "\<forall>r\<in>set new. c_post_id r = pid"
        by blast
      from n have "collected (snd (comments_loop env pid limit cs (append_row ?r st))) =
          collected st @ (?r # new)"
        by simp
      moreover from a p have "\<forall>r\<in>set (?r # new). c_post_id r = pid" by simp
      ultimately have "\<exists>new. collected (snd (comments_loop env pid limit cs (append_row ?r st))) =
          collected st @ new \<and> (\<forall>r\<in>set new. c_post_id r = pid)"
        by blast
      with Inr False show ?thesis by (simp add: Let_def)
    qed
  qed
qed

lemma post_rows_grows:
  "\<exists>new. post_rows env tlo lim acc pid = acc @ new
     \<and> (\<forall>r\<in>set new. c_post_id r = pid)
     \<and> (new \<noteq> [] \<longrightarrow> (\<exists>forest. fetch_comments env pid = Inr forest))"
proof (cases "fetch_comments env pid")
  case (Inl e)
  then show ?thesis by (simp add: post_rows_fetch_fails)
next
  case (Inr forest)
  then show ?thesis
    using comments_loop_grows [of env pid lim _ "\<lparr>collected = acc, printed = []\<rparr>"]
    by (simp add: post_rows_def collect_post_def Let_def)
qed

lemma foldl_post_rows_sound:
  "r \<in> set (foldl (post_rows env tlo lim) acc ps) \<Longrightarrow>
   r \<in> set acc \<or> (c_post_id r \<in> set ps \<and> (\<exists>forest. fetch_comments env (c_post_id r) = Inr forest))"
proof (induction ps arbitrary: acc)
  case Nil
  then show ?case by simp
next
  case (Cons p ps)
  obtain new where n: "post_rows env tlo lim acc p = acc @ new"
    and a: "\<forall>r\<in>set new. c_post_id r = p"
    and f: "new \<noteq> [] \<longrightarrow> (\<exists>forest. fetch_comments env p = Inr forest)"
    using post_rows_grows [of env tlo lim acc p] by blast
  from Cons.prems have "r \<in> set (foldl (post_rows env tlo lim) (acc @ new) ps)"
    by (simp add: n)
  from Cons.IH [OF this] show ?case
  proof
    assume "r \<in> set (acc @ new)"
    then show ?thesis
    proof (cases "r \<in> set acc")
      case True
      then show ?thesis by simp
    next
      case False
      with \<open>r \<in> set (acc @ new)\<close> have rn: "r \<in> set new" by simp
      then have "new \<noteq> []" by auto
      with f a rn show ?thesis by auto
    qed
  next
    assume "c_post_id r \<in> set ps \<and> (\<exists>forest. fetch_comments env (c_post_id r) = Inr forest)"
    then show ?thesis by simp
  qed
qed

lemma foldl_post_rows_prefix:
  "\<exists>new. foldl (post_rows env tlo lim) acc ps = acc @ new"
proof (induction ps arbitrary: acc)
  case Nil
  show ?case by simp
next
  case (Cons p ps)
  obtain new where n: "post_rows env tlo lim acc p = acc @ new"
    using post_rows_grows [of env tlo lim acc p] by blast
  from Cons.IH [of "acc @ new"] n show ?case by auto
qed

section \<open>A post whose comments cannot be fetched\<close>

lemma limit_reached_unset: "lim = None \<or> lim = Some 0 \<Longrightarrow> \<not> limit_reached lim k"
  by (auto simp: limit_reached_def)

lemma comments_loop_unlimited:
  assumes u: "lim = None \<or> lim = Some 0"
  shows "collected (snd (comments_loop env pid lim cs st)) =
     collected st @ collected (snd (comments_loop env pid lim cs start_run))"
proof (induction cs arbitrary: st)
  case Nil
  show ?case by simp
next
  case (Cons a cs)
  note IH = Cons.IH
  show ?case
  proof (cases a)
    case (MoreComments hs)
    have "comments_loop env pid lim (a # cs) s = comments_loop env pid lim cs s" for s
      by (simp add: MoreComments)
    then show ?thesis using IH [of st] by simp
  next
    case (Comment c rs)
    show ?thesis
    proof (cases "fromtimestamp env (k_created_utc c)")
      case (Inl e)
      have "comments_loop env pid lim (a # cs) s = (Some e, s)" for s
        by (simp add: Comment Inl)
      then show ?thesis by simp
    next
      case (Inr created)
      let ?r = "make_comment pid created c"
      have nr: "\<not> limit_reached lim k" for k
        using u by (rule limit_reached_unset)
      have step: "comments_loop env pid lim (a # cs) s =
          comments_loop env pid lim cs (append_row ?r s)" for s
        by (simp add: Comment Inr Let_def nr)
      have "collected (snd (comments_loop env pid lim cs (append_row ?r st))) =
          (collected st @ [?r]) @ collected (snd (comments_loop env pid lim cs start_run))"
        using IH [of "append_row ?r st"] by simp
      moreover have "collected (snd (comments_loop env pid lim cs (append_row ?r start_run))) =
          [?r] @ collected (snd (comments_loop env pid lim cs start_run))"
        using IH [of "append_row ?r start_run"] by simp
      ultimately show ?thesis
        by (simp only: step append_assoc)
    qed
  qed
qed

lemma post_rows_unlimited:
  assumes "lim = None \<or> lim = Some 0"
  shows "post_rows env tlo lim acc pid = acc @ post_rows env tlo lim [] pid"
proof (cases "fetch_comments env pid")
  case (Inl e)
  then show ?thesis by (simp add: post_rows_fetch_fails)
next
  case (Inr forest)
  have s: "\<lparr>collected = [], printed = []\<rparr> = (start_run :: comment_row run)"
    by (simp add: start_run_def)
  from Inr show ?thesis
    using comments_loop_unlimited [OF assms, of env pid _ "\<lparr>collected = acc, printed = []\<rparr>"]
    by (simp add: post_rows_def collect_post_def Let_def s)
qed

lemma foldl_post_rows_unlimited:
  assumes "lim = None \<or> lim = Some 0"
  shows "foldl (post_rows env tlo lim) acc ps = acc @ concat (map (post_rows env tlo lim []) ps)"
proof (induction ps arbitrary: acc)
  case Nil
  show ?case by simp
next
  case (Cons p ps)
  show ?case
    using Cons.IH [of "post_rows env tlo lim acc p"] post_rows_unlimited [OF assms, of env tlo acc p]
    by simp
qed

lemma get_comments_single:
  "fst (get_comments env [q] tlo lim) = post_rows env tlo lim [] q"
  by (simp add: get_comments_table)

lemma post_step_printed_grows:
  "\<exists>new. printed (post_step env tlo lim np idx pid st) = printed st @ new"
proof -
  let ?st = "print (''Collecting comments from post '' @ str_nat (idx + 1) @ ''/'' @ str_nat np) st"
  obtain e d where r: "collect_post env tlo lim pid ?st = (e, d)"
    by (cases "collect_post env tlo lim pid ?st")
  have "printed d = printed ?st"
    using collect_post_prints_nothing [of env tlo lim pid ?st] r by simp
  with r show ?thesis by (cases e) (simp_all add: post_step_def)
qed

lemma post_step_prints_error:
  assumes "fetch_comments env pid = Inl e"
  shows "''  Error collecting comments from '' @ pid @ '': '' @ e \<in>
           set (printed (post_step env tlo lim np idx pid st))"
  using assms by (simp add: post_step_def collect_post_def)

lemma posts_loop_printed_grows:
  "\<exists>new. printed (posts_loop env tlo lim np idx ps st) = printed st @ new"
proof (induction ps arbitrary: idx st)
  case Nil
  show ?case by simp
next
  case (Cons p ps)
  obtain n1 where a: "printed (post_step env tlo lim np idx p st) = printed st @ n1"
    using post_step_printed_grows [of env tlo lim np idx p st] by blast
  obtain n2 where b: "printed (posts_loop env tlo lim np (idx + 1) ps (post_step env tlo lim np idx p st)) =
      printed (post_step env tlo lim np idx p st) @ n2"
    using Cons.IH [of "idx + 1" "post_step env tlo lim np idx p st"] by blast
  from a b show ?case by simp
qed

lemma posts_loop_prints_error:
  assumes "fetch_comments env pid = Inl e"
  shows "pid \<in> set ps \<Longrightarrow>
     ''  Error collecting comments from '' @ pid @ '': '' @ e \<in>
       set (printed (posts_loop env tlo lim np idx ps st))"
proof (induction ps arbitrary: idx st)
  case Nil
  then show ?case by simp
next
  case (Cons p ps)
  let ?line = "''  Error collecting comments from '' @ pid @ '': '' @ e"
  let ?st = "post_step env tlo lim np idx p st"
  show ?case
  proof (cases "pid = p")
    case True
    have "?line \<in> set (printed ?st)"
      using post_step_prints_error [OF assms, of tlo lim np idx st] True by simp
    moreover obtain new where "printed (posts_loop env tlo lim np (idx + 1) ps ?st) = printed ?st @ new"
      using posts_loop_printed_grows [of env tlo lim np "idx + 1" ps ?st] by blast
    ultimately have "?line \<in> set (printed (posts_loop env tlo lim np (idx + 1) ps ?st))"
      by simp
    then show ?thesis by simp
  next
    case False
    with Cons.prems have "pid \<in> set ps" by simp
    from Cons.IH [OF this, of "idx + 1" ?st] show ?thesis by simp
  qed
qed

section \<open>The comment limit\<close>

text \<open>
  Claim C1 as stated fails. With \<^verbatim>\<open>limit=1\<close> and two posts of two comments
  each, the \<^verbatim>\<open>break\<close> at line 148 ends the loop over the comments of the first
  post only: the second post is fetched as well (its progress line is printed) and
  contributes one more row, so the table has two rows, more than the limit.
\<close>

theorem get_comments_limit_exceeded:
  "map (\<lambda>r. (c_post_id r, comment_id r))
     (fst (get_comments demo_reddit [''p1'', ''p2''] True (Some 1))) =
     [(''p1'', ''c1''), (''p2'', ''c3'')]
   \<and> snd (get_comments demo_reddit [''p1'', ''p2''] True (Some 1)) =
     [''Collecting comments from post 1/2'', ''Collecting comments from post 2/2'']
   \<and> int (length (fst (get_comments demo_reddit [''p1'', ''p2''] True (Some 1)))) > 1"
  by code_simp

section \<open>Failures of single items\<close>

text \<open>
  Claim C5, as the code has it. Both loops catch the exception of an item, print it and
  go on with the next item. A post whose comments cannot be fetched contributes no row:
  the table is that of the run without it. A subreddit whose search raises is printed
  with its error, and the collected list is the concatenation of what each subreddit
  contributes on its own; the failing subreddit contributes the rows appended before the
  raise, which are none when its first search raises before yielding anything.
\<close>

theorem item_failures_are_contained:
  "all_results env (before @ n # after) keywords start_date end_date limit sort_mode time_filter =
     all_results env before keywords start_date end_date limit sort_mode time_filter @
     community_rows env keywords start_date end_date limit sort_mode time_filter n @
     all_results env after keywords start_date end_date limit sort_mode time_filter
   \<and> (\<forall>e. community_error env keywords start_date end_date limit sort_mode time_filter n = Some e \<longrightarrow>
        ''  Error in r/'' @ n @ '': '' @ e \<in>
          set (snd (search_posts env (before @ n # after) keywords
                      start_date end_date limit sort_mode time_filter)))
   \<and> (\<forall>k ks e.
        keywords = k # ks \<and> search env n k limit sort_mode time_filter = Listing [] (Some e)
        \<longrightarrow> community_rows env keywords start_date end_date limit sort_mode time_filter n = [])
   \<and> (\<forall>e. fetch_comments env pid = Inl e \<longrightarrow>
        fst (get_comments env (pbefore @ pid # pafter) top_level_only climit) =
          fst (get_comments env (pbefore @ pafter) top_level_only climit)
        \<and> ''  Error collecting comments from '' @ pid @ '': '' @ e \<in>
            set (snd (get_comments env (pbefore @ pid # pafter) top_level_only climit)))"
proof (intro conjI allI impI)
  show "all_results env (before @ n # after) keywords start_date end_date limit sort_mode time_filter =
     all_results env before keywords start_date end_date limit sort_mode time_filter @
     community_rows env keywords start_date end_date limit sort_mode time_filter n @
     all_results env after keywords start_date end_date limit sort_mode time_filter"
    by (rule all_results_split)
next
  fix e
  assume e: "community_error env keywords start_date end_date limit sort_mode time_filter n = Some e"
  have "n \<in> set (before @ n # after)" by simp
  from error_line_printed [OF this e]
  show "''  Error in r/'' @ n @ '': '' @ e \<in>
          set (snd (search_posts env (before @ n # after) keywords
                      start_date end_date limit sort_mode time_filter))" .
next
  fix k ks e
  assume a: "keywords = k # ks \<and> search env n k limit sort_mode time_filter = Listing [] (Some e)"
  then have s: "search env n k limit sort_mode time_filter = Listing [] (Some e)" by simp
  from a community_raise_at_once(2) [OF s, of ks start_date end_date]
  show "community_rows env keywords start_date end_date limit sort_mode time_filter n = []"
    by simp
next
  fix e
  assume f: "fetch_comments env pid = Inl e"
  show "fst (get_comments env (pbefore @ pid # pafter) top_level_only climit) =
          fst (get_comments env (pbefore @ pafter) top_level_only climit)"
    by (simp add: get_comments_table post_rows_fetch_fails [OF f])
  have "pid \<in> set (pbefore @ pid # pafter)" by simp
  from posts_loop_prints_error [OF f this, of top_level_only climit
      "length (pbefore @ pid # pafter)" 0 start_run]
  show "''  Error collecting comments from '' @ pid @ '': '' @ e \<in>
            set (snd (get_comments env (pbefore @ pid # pafter) top_level_only climit))"
    unfolding get_comments_def Let_def snd_conv .
qed

text \<open>
  Claim C5 as stated fails: the search of \<^verbatim>\<open>flaky\<close> raises on its second
  keyword, the error is caught and printed, and the failing subreddit has contributed
  one row to the returned table, not zero.
\<close>

theorem item_failures_are_contained_counterexample:
  "''  Error in r/flaky: timed out'' \<in>
     set (snd (search_posts demo_reddit [''flaky''] [''x'', ''y''] None None 100 ''relevance'' ''all''))
   \<and> map (\<lambda>r. (subreddit r, post_id r))
        (fst (search_posts demo_reddit [''flaky''] [''x'', ''y''] None None 100 ''relevance'' ''all'')) =
       [(''flaky'', ''Q'')]"
  by code_simp

text \<open>
  Claim C5 on concrete data: the subreddit \<^verbatim>\<open>ghost\<close> and the post \<^verbatim>\<open>gone\<close>
  do not exist; both contribute nothing and the items after them are collected.
\<close>

theorem item_failures_are_contained_witness:
  "search demo_reddit ''ghost'' ''x'' 100 ''relevance'' ''all'' =
     Listing [] (Some ''received 404 HTTP response'')
   \<and> fetch_comments demo_reddit ''gone'' = Inl ''received 404 HTTP response''
   \<and> community_rows demo_reddit [''x''] None None 100 ''relevance'' ''all'' ''ghost'' = []
   \<and> all_results demo_reddit ([] @ ''ghost'' # [''alpha'']) [''x''] None None 100 ''relevance'' ''all'' =
       all_results demo_reddit [] [''x''] None None 100 ''relevance'' ''all'' @
       community_rows demo_reddit [''x''] None None 100 ''relevance'' ''all'' ''ghost'' @
       all_results demo_reddit [''alpha''] [''x''] None None 100 ''relevance'' ''all''
   \<and> fst (get_comments demo_reddit ([] @ ''gone'' # [''p1'']) False (Some 5)) =
       fst (get_comments demo_reddit ([] @ [''p1'']) False (Some 5))
   \<and> map post_id
       (fst (search_posts demo_reddit ([] @ ''ghost'' # [''alpha'']) [''x''] None None 100
               ''relevance'' ''all'')) = [''P'']
   \<and> map comment_id (fst (get_comments demo_reddit ([] @ ''gone'' # [''p1'']) False (Some 5))) =
       [''c1'', ''c2'']"
proof -
  note t = item_failures_are_contained [of demo_reddit "[]" "''ghost''" "[''alpha'']" "[''x'']"
      None None 100 "''relevance''" "''all''" "''gone''" "[]" "[''p1'']" False "Some 5"]
  have h1: "search demo_reddit ''ghost'' ''x'' 100 ''relevance'' ''all'' =
     Listing [] (Some ''received 404 HTTP response'')"
    by (simp add: demo_reddit_def)
  have h2: "fetch_comments demo_reddit ''gone'' = Inl ''received 404 HTTP response''"
    by (simp add: demo_reddit_def)
  from t have "\<forall>k ks e.
        [''x''] = k # ks \<and> search demo_reddit ''ghost'' k 100 ''relevance'' ''all'' = Listing [] (Some e)
        \<longrightarrow> community_rows demo_reddit [''x''] None None 100 ''relevance'' ''all'' ''ghost'' = []"
    by (elim conjE)
  from this [rule_format, of "''x''" "[]" "''received 404 HTTP response''"] h1
  have z: "community_rows demo_reddit [''x''] None None 100 ''relevance'' ''all'' ''ghost'' = []"
    by simp
  from t have a: "all_results demo_reddit ([] @ ''ghost'' # [''alpha'']) [''x''] None None 100 ''relevance'' ''all'' =
       all_results demo_reddit [] [''x''] None None 100 ''relevance'' ''all'' @
       community_rows demo_reddit [''x''] None None 100 ''relevance'' ''all'' ''ghost'' @
       all_results demo_reddit [''alpha''] [''x''] None None 100 ''relevance'' ''all''"
    by (elim conjE)
  from t have "\<forall>e. fetch_comments demo_reddit ''gone'' = Inl e \<longrightarrow>
        fst (get_comments demo_reddit ([] @ ''gone'' # [''p1'']) False (Some 5)) =
          fst (get_comments demo_reddit ([] @ [''p1'']) False (Some 5))
        \<and> ''  Error collecting comments from '' @ ''gone'' @ '': '' @ e \<in>
            set (snd (get_comments demo_reddit ([] @ ''gone'' # [''p1'']) False (Some 5)))"
    by (elim conjE)
  from this [rule_format, OF h2]
  have c: "fst (get_comments demo_reddit ([] @ ''gone'' # [''p1'']) False (Some 5)) =
       fst (get_comments demo_reddit ([] @ [''p1'']) False (Some 5))"
    by (elim conjE)
  have ev1: "map post_id
       (fst (search_posts demo_reddit ([] @ ''ghost'' # [''alpha'']) [''x''] None None 100
               ''relevance'' ''all'')) = [''P'']"
    by code_simp
  have ev2: "map comment_id (fst (get_comments demo_reddit ([] @ ''gone'' # [''p1'']) False (Some 5))) =
       [''c1'', ''c2'']"
    by code_simp
  show ?thesis
    by (intro conjI) (rule h1, rule h2, rule z, rule a, rule c, rule ev1, rule ev2)
qed

section \<open>Placeholders of the comment forest\<close>

lemma no_placeholder_replace_more: "no_placeholder (replace_more_limit_0 f)"
  by (induction f rule: replace_more_limit_0.induct) simp_all

lemma no_placeholder_append:
  "no_placeholder (q @ r) = (no_placeholder q \<and> no_placeholder r)"
  by (induction q rule: no_placeholder.induct) simp_all

lemma no_placeholder_is_comment: "no_placeholder q \<Longrightarrow> n \<in> set q \<Longrightarrow> is_comment n"
  by (induction q rule: no_placeholder.induct) auto

lemma no_placeholder_forest_list: "no_placeholder q \<Longrightarrow> no_placeholder (forest_list q)"
  by (induction q rule: forest_list.induct) (simp_all add: no_placeholder_append)

lemma genuine_replace_more: "genuine (replace_more_limit_0 f) = genuine f"
  by (induction f rule: replace_more_limit_0.induct) simp_all

lemma visible_replace_more: "visible (replace_more_limit_0 f) = visible f"
  by (induction f rule: replace_more_limit_0.induct) simp_all

lemma visible_append: "visible (q @ r) = visible q @ visible r"
  by (induction q rule: visible.induct) simp_all

lemma set_genuine_forest_list: "set (genuine (forest_list q)) = set (visible q)"
  by (induction q rule: forest_list.induct) (auto simp: visible_append)

lemma length_genuine_forest_list: "length (genuine (forest_list q)) = length (visible q)"
  by (induction q rule: forest_list.induct) (simp_all add: visible_append)

lemma comments_loop_unlimited_fst:
  assumes u: "lim = None \<or> lim = Some 0"
  shows "fst (comments_loop env pid lim cs st) = fst (comments_loop env pid lim cs start_run)"
proof (induction cs arbitrary: st)
  case Nil
  show ?case by simp
next
  case (Cons a cs)
  note IH = Cons.IH
  show ?case
  proof (cases a)
    case (MoreComments hs)
    have "comments_loop env pid lim (a # cs) s = comments_loop env pid lim cs s" for s
      by (simp add: MoreComments)
    then show ?thesis using IH [of st] by simp
  next
    case (Comment c rs)
    show ?thesis
    proof (cases "fromtimestamp env (k_created_utc c)")
      case (Inl e)
      have "comments_loop env pid lim (a # cs) s = (Some e, s)" for s
        by (simp add: Comment Inl)
      then show ?thesis by simp
    next
      case (Inr created)
      let ?r = "make_comment pid created c"
      have nr: "\<not> limit_reached lim k" for k
        using u by (rule limit_reached_unset)
      have step: "comments_loop env pid lim (a # cs) s =
          comments_loop env pid lim cs (append_row ?r s)" for s
        by (simp add: Comment Inr Let_def nr)
      show ?thesis
        using IH [of "append_row ?r st"] IH [of "append_row ?r start_run"]
        by (simp only: step)
    qed
  qed
qed

lemma comments_loop_unlimited_ids:
  assumes u: "lim = None \<or> lim = Some 0"
  shows "fst (comments_loop env pid lim cs start_run) = None \<Longrightarrow>
     map comment_id (collected (snd (comments_loop env pid lim cs start_run))) =
       map k_id (genuine cs)"
proof (induction cs)
  case Nil
  show ?case by simp
next
  case (Cons a cs)
  show ?case
  proof (cases a)
    case (MoreComments hs)
    have "comments_loop env pid lim (a # cs) s = comments_loop env pid lim cs s" for s
      by (simp add: MoreComments)
    with Cons MoreComments show ?thesis by simp
  next
    case (Comment c rs)
    show ?thesis
    proof (cases "fromtimestamp env (k_created_utc c)")
      case (Inl e)
      have "comments_loop env pid lim (a # cs) s = (Some e, s)" for s
        by (simp add: Comment Inl)
      with Cons.prems show ?thesis by simp
    next
      case (Inr created)
      let ?r = "make_comment pid created c"
      have nr: "\<not> limit_reached lim k" for k
        using u by (rule limit_reached_unset)
      have step: "comments_loop env pid lim (a # cs) s =
          comments_loop env pid lim cs (append_row ?r s)" for s
        by (simp add: Comment Inr Let_def nr)
      from Cons.prems have "fst (comments_loop env pid lim cs (append_row ?r start_run)) = None"
        by (simp only: step)
      then have ok: "fst (comments_loop env pid lim cs start_run) = None"
        using comments_loop_unlimited_fst [OF u, of env pid cs "append_row ?r start_run"] by simp
      have "collected (snd (comments_loop env pid lim (a # cs) start_run)) =
          ?r # collected (snd (comments_loop env pid lim cs start_run))"
        using comments_loop_unlimited [OF u, of env pid cs "append_row ?r start_run"]
        by (simp add: step)
      moreover have "comment_id ?r = k_id c" by (simp add: make_comment_def)
      ultimately show ?thesis
        using Cons.IH [OF ok] Comment by simp
    qed
  qed
qed

text \<open>
  Claim C4 as stated fails: the forest of \<^verbatim>\<open>p3\<close> is the comment \<^verbatim>\<open>c5\<close> with
  the reply \<^verbatim>\<open>c6\<close>, and a placeholder that stands for the comment \<^verbatim>\<open>c7\<close>.
  The flattened view that \<^verbatim>\<open>get_comments\<close> reads yields \<^verbatim>\<open>c5\<close> and
  \<^verbatim>\<open>c6\<close>; the fully resolved tree also has \<^verbatim>\<open>c7\<close>.
\<close>

theorem get_comments_placeholders_counterexample:
  "map comment_id (fst (get_comments demo_reddit [''p3''] False None)) = [''c5'', ''c6'']
   \<and> (case fetch_comments demo_reddit ''p3'' of
        Inl e \<Rightarrow> []
      | Inr forest \<Rightarrow> map k_id (genuine (forest_list (resolve_all forest)))) =
       [''c5'', ''c7'', ''c6'']"
  by code_simp

section \<open>The exported files\<close>

declare str_nat.simps [simp del]

lemma str_nat_one_digit: "n < 10 \<Longrightarrow> str_nat n = [digit n]"
  by (subst str_nat.simps) simp

lemma str_nat_two_digits:
  "10 \<le> n \<Longrightarrow> n < 100 \<Longrightarrow> str_nat n = [digit (n div 10), digit (n mod 10)]"
  by (subst str_nat.simps) (simp add: str_nat_one_digit)

lemma str_nat_three_digits:
  "100 \<le> n \<Longrightarrow> n < 1000 \<Longrightarrow>
   str_nat n = [digit (n div 100), digit (n div 10 mod 10), digit (n mod 10)]"
proof -
  assume a: "100 \<le> n" "n < 1000"
  then have b: "10 \<le> n div 10" "n div 10 < 100" by auto
  have "n div 10 div 10 = n div 100" by (simp add: div_mult2_eq [symmetric])
  with a str_nat_two_digits [OF b] show ?thesis
    by (subst str_nat.simps) simp
qed

lemma str_nat_four_digits:
  "1000 \<le> n \<Longrightarrow> n < 10000 \<Longrightarrow>
   str_nat n = [digit (n div 1000), digit (n div 100 mod 10), digit (n div 10 mod 10), digit (n mod 10)]"
proof -
  assume a: "1000 \<le> n" "n < 10000"
  then have b: "100 \<le> n div 10" "n div 10 < 1000" by auto
  have "n div 10 div 100 = n div 1000" "n div 10 div 10 = n div 100"
    by (simp_all add: div_mult2_eq [symmetric])
  with a str_nat_three_digits [OF b] show ?thesis
    by (subst str_nat.simps) simp
qed

lemma zero_pad_2: "n < 100 \<Longrightarrow> zero_pad 2 (str_nat n) = [digit (n div 10), digit (n mod 10)]"
proof (cases "n < 10")
  case True
  then have "digit (n div 10) = CHR ''0''" by (simp add: digit_def)
  with True show ?thesis by (simp add: zero_pad_def str_nat_one_digit)
next
  case False
  assume "n < 100"
  with False show ?thesis by (simp add: zero_pad_def str_nat_two_digits)
qed

lemma zero_pad_4:
  "1000 \<le> n \<Longrightarrow> n < 10000 \<Longrightarrow>
   zero_pad 4 (str_nat n) =
     [digit (n div 1000), digit (n div 100 mod 10), digit (n div 10 mod 10), digit (n mod 10)]"
  by (simp add: zero_pad_def str_nat_four_digits)

lemma strftime_format:
  assumes "1000 \<le> t_year t" "t_year t < 10000" "t_month t < 100" "t_day t < 100"
    "t_hour t < 100" "t_minute t < 100" "t_second t < 100"
  shows "strftime t =
     [digit (t_year t div 1000), digit (t_year t div 100 mod 10),
      digit (t_year t div 10 mod 10), digit (t_year t mod 10),
      digit (t_month t div 10), digit (t_month t mod 10),
      digit (t_day t div 10), digit (t_day t mod 10),
      CHR ''_'',
      digit (t_hour t div 10), digit (t_hour t mod 10),
      digit (t_minute t div 10), digit (t_minute t mod 10),
      digit (t_second t div 10), digit (t_second t mod 10)]"
  using assms by (simp add: strftime_def zero_pad_2 zero_pad_4)

lemma posts_name_not_comments_name:
  "output_prefix @ ''_posts_'' @ ts @ ''.csv'' \<noteq> output_prefix @ ''_comments_'' @ ts @ ''.csv''"
  by simp

text \<open>
  Claim C8. When both files can be opened for writing and the clock shows a four-digit
  year, \<^verbatim>\<open>save_data\<close> returns the posts filename, which is the prefix, the label
  \<^verbatim>\<open>_posts_\<close>, the timestamp and \<^verbatim>\<open>.csv\<close>; the posts file holds the text of
  the Post table; a Comment table with at least one row is written to the file named
  with the label \<^verbatim>\<open>_comments_\<close> and the same timestamp; without comments
  (\<^verbatim>\<open>None\<close> or an empty table) the comments file is left as it was; no other file
  changes. The timestamp is four digits of the year, two of the month, two of the day,
  an underscore, and two digits each of the hour, the minute and the second.
\<close>

theorem save_data_files:
  assumes open_posts:
      "cannot_open (output_prefix @ ''_posts_'' @ strftime now @ ''.csv'') = None"
    and open_comments:
      "cannot_open (output_prefix @ ''_comments_'' @ strftime now @ ''.csv'') = None"
    and clock: "1000 \<le> t_year now" "t_year now < 10000" "t_month now \<le> 12" "t_day now \<le> 31"
      "t_hour now \<le> 23" "t_minute now \<le> 59" "t_second now \<le> 59"
  shows "\<exists>fs' out'.
      save_data cannot_open render_posts render_comments now posts_df comments_df output_prefix
          (fs, out) =
        Inr (output_prefix @ ''_posts_'' @ strftime now @ ''.csv'', fs', out')
      \<and> fs' (output_prefix @ ''_posts_'' @ strftime now @ ''.csv'') = Some (render_posts posts_df)
      \<and> (\<forall>cdf. comments_df = Some cdf \<and> cdf \<noteq> [] \<longrightarrow>
            fs' (output_prefix @ ''_comments_'' @ strftime now @ ''.csv'') =
              Some (render_comments cdf))
      \<and> (comments_df = None \<or> comments_df = Some [] \<longrightarrow>
            fs' (output_prefix @ ''_comments_'' @ strftime now @ ''.csv'') =
              fs (output_prefix @ ''_comments_'' @ strftime now @ ''.csv''))
      \<and> (\<forall>f. f \<noteq> output_prefix @ ''_posts_'' @ strftime now @ ''.csv'' \<and>
              f \<noteq> output_prefix @ ''_comments_'' @ strftime now @ ''.csv'' \<longrightarrow> fs' f = fs f)
      \<and> strftime now =
          [digit (t_year now div 1000), digit (t_year now div 100 mod 10),
           digit (t_year now div 10 mod 10), digit (t_year now mod 10),
           digit (t_month now div 10), digit (t_month now mod 10),
           digit (t_day now div 10), digit (t_day now mod 10),
           CHR ''_'',
           digit (t_hour now div 10), digit (t_hour now mod 10),
           digit (t_minute now div 10), digit (t_minute now mod 10),
           digit (t_second now div 10), digit (t_second now mod 10)]"
proof -
  let ?p = "output_prefix @ ''_posts_'' @ strftime now @ ''.csv''"
  let ?c = "output_prefix @ ''_comments_'' @ strftime now @ ''.csv''"
  let ?out1 = "out @ [[CHR 0x0A] @ ''Posts saved to: '' @ ?p]"
  have ne: "?p \<noteq> ?c" by (rule posts_name_not_comments_name)
  have fmt: "strftime now =
          [digit (t_year now div 1000), digit (t_year now div 100 mod 10),
           digit (t_year now div 10 mod 10), digit (t_year now mod 10),
           digit (t_month now div 10), digit (t_month now mod 10),
           digit (t_day now div 10), digit (t_day now mod 10),
           CHR ''_'',
           digit (t_hour now div 10), digit (t_hour now mod 10),
           digit (t_minute now div 10), digit (t_minute now mod 10),
           digit (t_second now div 10), digit (t_second now mod 10)]"
    using clock by (intro strftime_format) simp_all
  have posts: "to_csv cannot_open render_posts posts_df ?p fs = Inr (fs(?p \<mapsto> render_posts posts_df))"
    using open_posts by (simp add: to_csv_def)
  have comments: "to_csv cannot_open render_comments cdf ?c fs1 = Inr (fs1(?c \<mapsto> render_comments cdf))"
    for cdf fs1
    using open_comments by (simp add: to_csv_def)
  show ?thesis
  proof (cases "\<exists>cdf. comments_df = Some cdf \<and> cdf \<noteq> []")
    case True
    then obtain cdf where c: "comments_df = Some cdf" "cdf \<noteq> []" by blast
    let ?fs = "fs(?p \<mapsto> render_posts posts_df, ?c \<mapsto> render_comments cdf)"
    have r: "save_data cannot_open render_posts render_comments now posts_df comments_df
        output_prefix (fs, out) = Inr (?p, ?fs, ?out1 @ [''Comments saved to: '' @ ?c])"
      using c by (simp only: save_data_def Let_def fst_conv snd_conv posts comments
          sum.case option.case length_greater_0_conv simp_thms if_True)
    have "?fs ?p = Some (render_posts posts_df)" using ne by (simp only: fun_upd_apply) simp
    moreover have "?fs ?c = Some (render_comments cdf)" by (simp only: fun_upd_apply) simp
    moreover have "\<forall>f. f \<noteq> ?p \<and> f \<noteq> ?c \<longrightarrow> ?fs f = fs f" by (simp only: fun_upd_apply) simp
    ultimately show ?thesis using r c fmt by blast
  next
    case False
    let ?fs = "fs(?p \<mapsto> render_posts posts_df)"
    have r: "save_data cannot_open render_posts render_comments now posts_df comments_df
        output_prefix (fs, out) = Inr (?p, ?fs, ?out1)"
    proof (cases comments_df)
      case None
      then show ?thesis
        by (simp only: save_data_def Let_def fst_conv snd_conv posts sum.case option.case)
    next
      case (Some cdf)
      with False have "cdf = []" by simp
      with Some show ?thesis
        by (simp only: save_data_def Let_def fst_conv snd_conv posts sum.case option.case
            list.size less_irrefl simp_thms if_False)
    qed
    have "?fs ?p = Some (render_posts posts_df)" by (simp only: fun_upd_apply) simp
    moreover have "?fs ?c = fs ?c" using ne by (simp only: fun_upd_apply) simp
    moreover have "\<forall>f. f \<noteq> ?p \<and> f \<noteq> ?c \<longrightarrow> ?fs f = fs f" by (simp only: fun_upd_apply) simp
    ultimately show ?thesis using r False fmt by blast
  qed
qed

text \<open>
  Claim C8 on concrete data: an export at 16:25:07 on 4 November 2026 with the default
  prefix and no comments.
\<close>

theorem save_data_files_witness:
  "1000 \<le> t_year demo_now \<and> t_year demo_now < 10000 \<and> t_month demo_now \<le> 12
   \<and> t_day demo_now \<le> 31 \<and> t_hour demo_now \<le> 23 \<and> t_minute demo_now \<le> 59
   \<and> t_second demo_now \<le> 59
   \<and> strftime demo_now = ''20261104_162507''
   \<and> map_sum id fst
        (save_data (\<lambda>f. None) (\<lambda>df. ''posts'') (\<lambda>df. ''comments'') demo_now
           ([] :: int post list) None ''reddit_data'' (Map.empty, [])) =
       Inr ''reddit_data_posts_20261104_162507.csv''"
proof -
  have c: "1000 \<le> t_year demo_now" "t_year demo_now < 10000" "t_month demo_now \<le> 12"
    "t_day demo_now \<le> 31" "t_hour demo_now \<le> 23" "t_minute demo_now \<le> 59"
    "t_second demo_now \<le> 59"
    by (simp_all add: demo_now_def)
  have o: "(\<lambda>f :: string. None :: exn option) x = None" for x by simp
  have ts: "strftime demo_now = ''20261104_162507''" by code_simp
  from save_data_files [where cannot_open = "\<lambda>f. None" and now = demo_now
      and output_prefix = "''reddit_data''" and render_posts = "\<lambda>df. ''posts''"
      and render_comments = "\<lambda>df. ''comments''" and posts_df = "[] :: int post list"
      and comments_df = None and fs = Map.empty and out = "[]", OF o o c]
  obtain fs' out' where
    "save_data (\<lambda>f. None) (\<lambda>df. ''posts'') (\<lambda>df. ''comments'') demo_now
       ([] :: int post list) None ''reddit_data'' (Map.empty, []) =
     Inr (''reddit_data'' @ ''_posts_'' @ strftime demo_now @ ''.csv'', fs', out')"
    by blast
  then have "map_sum id fst
        (save_data (\<lambda>f. None) (\<lambda>df. ''posts'') (\<lambda>df. ''comments'') demo_now
           ([] :: int post list) None ''reddit_data'' (Map.empty, [])) =
       Inr (''reddit_data'' @ ''_posts_'' @ strftime demo_now @ ''.csv'')"
    by (simp only: map_sum.simps fst_conv)
  then have r: "map_sum id fst
        (save_data (\<lambda>f. None) (\<lambda>df. ''posts'') (\<lambda>df. ''comments'') demo_now
           ([] :: int post list) None ''reddit_data'' (Map.empty, [])) =
       Inr ''reddit_data_posts_20261104_162507.csv''"
    by (simp add: ts)
  show ?thesis
    by (intro conjI) (rule c ts r)+
qed

section \<open>Which comments reach the table\<close>

lemma comments_loop_step_more:
  "comments_loop env pid lim (MoreComments hs # cs) st = comments_loop env pid lim cs st"
  by simp

lemma comments_loop_step_raise:
  "fromtimestamp env (k_created_utc c) = Inl e \<Longrightarrow>
   comments_loop env pid lim (Comment c rs # cs) st = (Some e, st)"
  by simp

lemma comments_loop_step_break:
  "fromtimestamp env (k_created_utc c) = Inr d \<Longrightarrow>
   limit_reached lim (length (collected (append_row (make_comment pid d c) st))) \<Longrightarrow>
   comments_loop env pid lim (Comment c rs # cs) st = (None, append_row (make_comment pid d c) st)"
  by (simp add: Let_def)

lemma comments_loop_step_next:
  "fromtimestamp env (k_created_utc c) = Inr d \<Longrightarrow>
   \<not> limit_reached lim (length (collected (append_row (make_comment pid d c) st))) \<Longrightarrow>
   comments_loop env pid lim (Comment c rs # cs) st =
     comments_loop env pid lim cs (append_row (make_comment pid d c) st)"
  by (simp add: Let_def)

lemma comments_loop_keeps:
  "r \<in> set (collected st) \<Longrightarrow> r \<in> set (collected (snd (comments_loop env pid lim cs st)))"
  using comments_loop_grows [of env pid lim cs st] by auto

lemma comments_loop_first:
  "genuine cs = c # rest \<Longrightarrow> fromtimestamp env (k_created_utc c) = Inr d \<Longrightarrow>
   make_comment pid d c \<in> set (collected (snd (comments_loop env pid lim cs st)))"
proof (induction cs)
  case Nil
  then show ?case by simp
next
  case (Cons a cs)
  show ?case
  proof (cases a)
    case (MoreComments hs)
    with Cons show ?thesis by (simp only: comments_loop_step_more genuine.simps)
  next
    case (Comment c' rs)
    with Cons.prems have eq: "c' = c" by simp
    let ?st = "append_row (make_comment pid d c) st"
    have m: "make_comment pid d c \<in> set (collected ?st)" by simp
    show ?thesis
    proof (cases "limit_reached lim (length (collected ?st))")
      case True
      from comments_loop_step_break [OF Cons.prems(2) True, of rs cs] m
      show ?thesis by (simp only: Comment eq snd_conv)
    next
      case False
      from comments_loop_step_next [OF Cons.prems(2) False, of rs cs]
        comments_loop_keeps [OF m, of env pid lim cs]
      show ?thesis by (simp only: Comment eq)
    qed
  qed
qed

lemma comments_loop_sound:
  "r \<in> set (collected (snd (comments_loop env pid lim cs st))) \<Longrightarrow>
   r \<in> set (collected st) \<or>
   (\<exists>c\<in>set (genuine cs). \<exists>d. fromtimestamp env (k_created_utc c) = Inr d \<and> r = make_comment pid d c)"
proof (induction cs arbitrary: st)
  case Nil
  then show ?case by simp
next
  case (Cons a cs)
  show ?case
  proof (cases a)
    case (MoreComments hs)
    with Cons.prems have "r \<in> set (collected (snd (comments_loop env pid lim cs st)))"
      by (simp only: comments_loop_step_more)
    from Cons.IH [OF this] MoreComments show ?thesis by simp
  next
    case (Comment c rs)
    show ?thesis
    proof (cases "fromtimestamp env (k_created_utc c)")
      case (Inl e)
      with Cons.prems Comment show ?thesis
        by (simp only: comments_loop_step_raise [OF Inl] snd_conv) simp
    next
      case (Inr d)
      let ?r = "make_comment pid d c"
      let ?st = "append_row ?r st"
      have c: "c \<in> set (genuine (a # cs))" by (simp add: Comment)
      have here: "x \<in> set (collected ?st) \<Longrightarrow>
          x \<in> set (collected st) \<or> x = ?r" for x
        by auto
      show ?thesis
      proof (cases "limit_reached lim (length (collected ?st))")
        case True
        with Cons.prems Comment have "r \<in> set (collected ?st)"
          by (simp only: comments_loop_step_break [OF Inr True] snd_conv)
        from here [OF this] c Inr show ?thesis by blast
      next
        case False
        with Cons.prems Comment have "r \<in> set (collected (snd (comments_loop env pid lim cs ?st)))"
          by (simp only: comments_loop_step_next [OF Inr False])
        from Cons.IH [OF this] show ?thesis
        proof
          assume "r \<in> set (collected ?st)"
          from here [OF this] c Inr show ?thesis by blast
        next
          assume "\<exists>c\<in>set (genuine cs). \<exists>d. fromtimestamp env (k_created_utc c) = Inr d \<and>
              r = make_comment pid d c"
          then show ?thesis by (simp add: Comment)
        qed
      qed
    qed
  qed
qed

lemma comments_loop_complete_unlimited:
  assumes u: "lim = None \<or> lim = Some 0"
  shows "\<forall>c'\<in>set (genuine cs). \<exists>d'. fromtimestamp env (k_created_utc c') = Inr d' \<Longrightarrow>
     c \<in> set (genuine cs) \<Longrightarrow> fromtimestamp env (k_created_utc c) = Inr d \<Longrightarrow>
     make_comment pid d c \<in> set (collected (snd (comments_loop env pid lim cs st)))"
proof (induction cs arbitrary: st)
  case Nil
  then show ?case by simp
next
  case (Cons a cs)
  show ?case
  proof (cases a)
    case (MoreComments hs)
    with Cons.prems have "\<forall>c'\<in>set (genuine cs). \<exists>d'. fromtimestamp env (k_created_utc c') = Inr d'"
      and "c \<in> set (genuine cs)"
      by simp_all
    from Cons.IH [OF this Cons.prems(3), of st] MoreComments
    show ?thesis by (simp only: comments_loop_step_more)
  next
    case (Comment c0 rs)
    with Cons.prems(1) obtain d0 where d0: "fromtimestamp env (k_created_utc c0) = Inr d0"
      by auto
    let ?st = "append_row (make_comment pid d0 c0) st"
    have nr: "\<not> limit_reached lim (length (collected ?st))"
      using u by (rule limit_reached_unset)
    have step: "comments_loop env pid lim (a # cs) st = comments_loop env pid lim cs ?st"
      using comments_loop_step_next [OF d0 nr] by (simp only: Comment)
    show ?thesis
    proof (cases "c = c0")
      case True
      with d0 Cons.prems(3) have "d = d0" by simp
      then have "make_comment pid d c \<in> set (collected ?st)" using True by simp
      from comments_loop_keeps [OF this, of env pid lim cs] show ?thesis
        by (simp only: step)
    next
      case False
      with Cons.prems Comment have "\<forall>c'\<in>set (genuine cs). \<exists>d'. fromtimestamp env (k_created_utc c') = Inr d'"
        and "c \<in> set (genuine cs)"
        by simp_all
      from Cons.IH [OF this Cons.prems(3), of ?st] show ?thesis
        by (simp only: step)
    qed
  qed
qed

lemma comments_loop_bound:
  assumes "1 \<le> C"
  shows "length (collected (snd (comments_loop env pid (Some C) cs st))) \<le>
     max (length (collected st) + 1) (nat C)"
proof (induction cs arbitrary: st)
  case Nil
  show ?case by simp
next
  case (Cons a cs)
  show ?case
  proof (cases a)
    case (MoreComments hs)
    from Cons.IH [of st] show ?thesis
      by (simp only: MoreComments comments_loop_step_more)
  next
    case (Comment c rs)
    show ?thesis
    proof (cases "fromtimestamp env (k_created_utc c)")
      case (Inl e)
      have "length (collected st) \<le> max (length (collected st) + 1) (nat C)" by simp
      then show ?thesis
        by (simp only: Comment comments_loop_step_raise [OF Inl] snd_conv)
    next
      case (Inr d)
      let ?st = "append_row (make_comment pid d c) st"
      show ?thesis
      proof (cases "limit_reached (Some C) (length (collected ?st))")
        case True
        show ?thesis
          by (simp only: Comment comments_loop_step_break [OF Inr True] snd_conv) simp
      next
        case False
        then have "int (length (collected st) + 1) < C"
          using assms by (simp add: limit_reached_def)
        then have "length (collected ?st) + 1 \<le> nat C" by simp
        with Cons.IH [of ?st]
        have "length (collected (snd (comments_loop env pid (Some C) cs ?st))) \<le> nat C"
          by simp
        then have "length (collected (snd (comments_loop env pid (Some C) cs ?st))) \<le>
            max (length (collected st) + 1) (nat C)"
          by simp
        then show ?thesis
          by (simp only: Comment comments_loop_step_next [OF Inr False])
      qed
    qed
  qed
qed

lemma genuine_forest_list_head:
  "genuine q = c # rest \<Longrightarrow> \<exists>rest'. genuine (forest_list q) = c # rest'"
proof (induction q)
  case Nil
  then show ?case by simp
next
  case (Cons a q)
  show ?case
  proof (cases a)
    case (Comment c' rs)
    with Cons.prems show ?thesis by simp
  next
    case (MoreComments hs)
    with Cons show ?thesis by simp
  qed
qed


lemma view_comments:
  "set (genuine (if tlo then replace_more_limit_0 f else forest_list (replace_more_limit_0 f))) =
     set (if tlo then genuine f else visible f)"
  by (simp add: genuine_replace_more set_genuine_forest_list visible_replace_more)

lemma view_head:
  assumes "genuine f = c # rest"
  shows "\<exists>rest'. genuine (if tlo then replace_more_limit_0 f
                           else forest_list (replace_more_limit_0 f)) = c # rest'"
proof (cases tlo)
  case True
  with assms show ?thesis by (simp add: genuine_replace_more)
next
  case False
  from assms have "genuine (replace_more_limit_0 f) = c # rest"
    by (simp add: genuine_replace_more)
  from genuine_forest_list_head [OF this] False show ?thesis by simp
qed

lemma post_rows_fetched:
  "fetch_comments env pid = Inr forest \<Longrightarrow>
   post_rows env tlo lim acc pid =
     collected (snd (comments_loop env pid lim
        (if tlo then replace_more_limit_0 forest else forest_list (replace_more_limit_0 forest))
        \<lparr>collected = acc, printed = []\<rparr>))"
  by (simp add: post_rows_def collect_post_def Let_def)

lemma post_rows_first:
  assumes f: "fetch_comments env pid = Inr forest"
    and g: "genuine forest = c # rest"
    and d: "fromtimestamp env (k_created_utc c) = Inr d"
  shows "make_comment pid d c \<in> set (post_rows env tlo lim acc pid)"
proof -
  from view_head [OF g, of tlo] obtain rest' where
    v: "genuine (if tlo then replace_more_limit_0 forest
                 else forest_list (replace_more_limit_0 forest)) = c # rest'"
    by blast
  from comments_loop_first [OF v d] show ?thesis
    by (simp only: post_rows_fetched [OF f])
qed

lemma post_rows_sound:
  assumes "r \<in> set (post_rows env tlo lim acc pid)"
  shows "r \<in> set acc \<or>
     (\<exists>forest c d. fetch_comments env pid = Inr forest \<and>
        c \<in> set (if tlo then genuine forest else visible forest) \<and>
        fromtimestamp env (k_created_utc c) = Inr d \<and> r = make_comment pid d c)"
proof (cases "fetch_comments env pid")
  case (Inl e)
  with assms show ?thesis by (simp add: post_rows_fetch_fails)
next
  case (Inr forest)
  let ?view = "if tlo then replace_more_limit_0 forest else forest_list (replace_more_limit_0 forest)"
  from assms have "r \<in> set (collected (snd (comments_loop env pid lim ?view
      \<lparr>collected = acc, printed = []\<rparr>)))"
    by (simp only: post_rows_fetched [OF Inr])
  from comments_loop_sound [OF this]
  have "r \<in> set acc \<or> (\<exists>c\<in>set (genuine ?view). \<exists>d.
      fromtimestamp env (k_created_utc c) = Inr d \<and> r = make_comment pid d c)"
    by simp
  then show ?thesis
  proof
    assume "r \<in> set acc"
    then show ?thesis by simp
  next
    assume "\<exists>c\<in>set (genuine ?view). \<exists>d.
      fromtimestamp env (k_created_utc c) = Inr d \<and> r = make_comment pid d c"
    then obtain c d where c: "c \<in> set (genuine ?view)"
      and d: "fromtimestamp env (k_created_utc c) = Inr d" "r = make_comment pid d c"
      by blast
    from c have "c \<in> set (if tlo then genuine forest else visible forest)"
      by (simp only: view_comments)
    with Inr d show ?thesis by blast
  qed
qed

lemma post_rows_complete_unlimited:
  assumes u: "lim = None \<or> lim = Some 0"
    and f: "fetch_comments env pid = Inr forest"
    and ok: "\<forall>c'\<in>set (if tlo then genuine forest else visible forest).
               \<exists>d'. fromtimestamp env (k_created_utc c') = Inr d'"
    and c: "c \<in> set (if tlo then genuine forest else visible forest)"
    and d: "fromtimestamp env (k_created_utc c) = Inr d"
  shows "make_comment pid d c \<in> set (post_rows env tlo lim acc pid)"
proof -
  let ?view = "if tlo then replace_more_limit_0 forest else forest_list (replace_more_limit_0 forest)"
  from ok have ok': "\<forall>c'\<in>set (genuine ?view). \<exists>d'. fromtimestamp env (k_created_utc c') = Inr d'"
    by (simp only: view_comments)
  from c have c': "c \<in> set (genuine ?view)" by (simp only: view_comments)
  from comments_loop_complete_unlimited [OF u ok' c' d] show ?thesis
    by (simp only: post_rows_fetched [OF f])
qed

lemma post_rows_bound:
  assumes "1 \<le> C"
  shows "\<exists>new. post_rows env tlo (Some C) acc pid = acc @ new \<and> length new \<le> nat C
     \<and> (\<forall>r\<in>set new. c_post_id r = pid)"
proof -
  obtain new where n: "post_rows env tlo (Some C) acc pid = acc @ new"
    and p: "\<forall>r\<in>set new. c_post_id r = pid"
    using post_rows_grows [of env tlo "Some C" acc pid] by blast
  have "length (post_rows env tlo (Some C) acc pid) \<le> max (length acc + 1) (nat C)"
  proof (cases "fetch_comments env pid")
    case (Inl e)
    then show ?thesis by (simp add: post_rows_fetch_fails)
  next
    case (Inr forest)
    show ?thesis
      using comments_loop_bound [OF assms, of env pid _ "\<lparr>collected = acc, printed = []\<rparr>"]
      by (simp add: post_rows_fetched [OF Inr])
  qed
  with n assms have "length new \<le> nat C" by auto
  with n p show ?thesis by blast
qed

lemma foldl_post_rows_keeps:
  "r \<in> set acc \<Longrightarrow> r \<in> set (foldl (post_rows env tlo lim) acc ps)"
  using foldl_post_rows_prefix [of env tlo lim acc ps] by auto

lemma foldl_post_rows_member:
  assumes "\<And>acc. r \<in> set (post_rows env tlo lim acc pid)"
  shows "pid \<in> set ps \<Longrightarrow> r \<in> set (foldl (post_rows env tlo lim) acc0 ps)"
proof (induction ps arbitrary: acc0)
  case Nil
  then show ?case by simp
next
  case (Cons p ps)
  show ?case
  proof (cases "pid = p")
    case True
    from assms [of acc0] True have "r \<in> set (post_rows env tlo lim acc0 p)" by simp
    from foldl_post_rows_keeps [OF this] show ?thesis by simp
  next
    case False
    with Cons.prems have "pid \<in> set ps" by simp
    from Cons.IH [OF this] show ?thesis by simp
  qed
qed

lemma foldl_post_rows_origin:
  "r \<in> set (foldl (post_rows env tlo lim) acc ps) \<Longrightarrow>
   r \<in> set acc \<or>
   (\<exists>pid\<in>set ps. \<exists>forest c d. fetch_comments env pid = Inr forest \<and>
      c \<in> set (if tlo then genuine forest else visible forest) \<and>
      fromtimestamp env (k_created_utc c) = Inr d \<and> r = make_comment pid d c)"
proof (induction ps arbitrary: acc)
  case Nil
  then show ?case by simp
next
  case (Cons p ps)
  from Cons.prems have "r \<in> set (foldl (post_rows env tlo lim) (post_rows env tlo lim acc p) ps)"
    by simp
  from Cons.IH [OF this] show ?case
  proof
    assume "r \<in> set (post_rows env tlo lim acc p)"
    from post_rows_sound [OF this] show ?thesis
    proof
      assume "r \<in> set acc"
      then show ?thesis by (rule disjI1)
    next
      assume "\<exists>forest c d. fetch_comments env p = Inr forest \<and>
        c \<in> set (if tlo then genuine forest else visible forest) \<and>
        fromtimestamp env (k_created_utc c) = Inr d \<and> r = make_comment p d c"
      moreover have "p \<in> set (p # ps)" by simp
      ultimately show ?thesis by blast
    qed
  next
    assume "\<exists>pid\<in>set ps. \<exists>forest c d. fetch_comments env pid = Inr forest \<and>
      c \<in> set (if tlo then genuine forest else visible forest) \<and>
      fromtimestamp env (k_created_utc c) = Inr d \<and> r = make_comment pid d c"
    then obtain pid where "pid \<in> set ps" and "\<exists>forest c d. fetch_comments env pid = Inr forest \<and>
      c \<in> set (if tlo then genuine forest else visible forest) \<and>
      fromtimestamp env (k_created_utc c) = Inr d \<and> r = make_comment pid d c"
      by blast
    moreover from this(1) have "pid \<in> set (p # ps)" by simp
    ultimately show ?thesis by blast
  qed
qed

lemma foldl_post_rows_total:
  assumes "1 \<le> C"
  shows "length (foldl (post_rows env tlo (Some C)) acc ps) \<le> length acc + nat C * length ps"
proof (induction ps arbitrary: acc)
  case Nil
  show ?case by simp
next
  case (Cons p ps)
  obtain new where n: "post_rows env tlo (Some C) acc p = acc @ new" and l: "length new \<le> nat C"
    using post_rows_bound [OF assms, of env tlo acc p] by blast
  from Cons.IH [of "acc @ new"] l show ?case by (simp add: n)
qed

lemma foldl_post_rows_per_post:
  assumes "1 \<le> C"
  shows "length (filter (\<lambda>r. c_post_id r = pid) (foldl (post_rows env tlo (Some C)) acc ps)) \<le>
     length (filter (\<lambda>r. c_post_id r = pid) acc) + nat C * count_list ps pid"
proof (induction ps arbitrary: acc)
  case Nil
  show ?case by simp
next
  case (Cons p ps)
  obtain new where n: "post_rows env tlo (Some C) acc p = acc @ new" and l: "length new \<le> nat C"
    and o: "\<forall>r\<in>set new. c_post_id r = p"
    using post_rows_bound [OF assms, of env tlo acc p] by blast
  have f: "length (filter (\<lambda>r. c_post_id r = pid) new) \<le> (if p = pid then nat C else 0)"
  proof (cases "p = pid")
    case True
    have "length (filter (\<lambda>r. c_post_id r = pid) new) \<le> length new" by (rule length_filter_le)
    from order_trans [OF this l] True show ?thesis by simp
  next
    case False
    with o have "filter (\<lambda>r. c_post_id r = pid) new = []" by (auto simp: filter_empty_conv)
    with False show ?thesis by simp
  qed
  have e: "foldl (post_rows env tlo (Some C)) acc (p # ps) =
      foldl (post_rows env tlo (Some C)) (acc @ new) ps"
    by (simp add: n)
  have c: "count_list (p # ps) pid = count_list ps pid + (if p = pid then 1 else 0)"
    by simp
  have "length (filter (\<lambda>r. c_post_id r = pid) (foldl (post_rows env tlo (Some C)) (acc @ new) ps)) \<le>
      length (filter (\<lambda>r. c_post_id r = pid) acc) +
      (length (filter (\<lambda>r. c_post_id r = pid) new) + nat C * count_list ps pid)"
    using Cons.IH [of "acc @ new"] by simp
  also have "\<dots> \<le> length (filter (\<lambda>r. c_post_id r = pid) acc) +
      nat C * (count_list ps pid + (if p = pid then 1 else 0))"
    using f by (cases "p = pid") simp_all
  finally show ?case by (simp only: e c)
qed

section \<open>The limit, per post\<close>

text \<open>
  Claim C1, as the code has it. The docstring gives \<^verbatim>\<open>limit\<close> as the maximum
  number of comments per post, and the \<^verbatim>\<open>break\<close> at line 148 ends the loop over
  the comments of the current post only. With a limit \<open>C\<close> of at least one, every run
  of the \<^verbatim>\<open>try\<close> block adds at most \<open>C\<close> rows: the rows of a post identifier
  are at most \<open>C\<close> for each time it is listed, and the table has at most \<open>C\<close> rows
  for each listed identifier. The posts after the one on which the limit is reached are
  still processed: the first comment of every listed post that can be fetched and
  converted is in the table.
\<close>

theorem get_comments_limit_per_post:
  assumes "1 \<le> C"
  shows "(\<forall>pid. length (filter (\<lambda>r. c_post_id r = pid)
                     (fst (get_comments env post_ids top_level_only (Some C)))) \<le>
                 nat C * count_list post_ids pid)
     \<and> length (fst (get_comments env post_ids top_level_only (Some C))) \<le> nat C * length post_ids
     \<and> (\<forall>pid\<in>set post_ids. \<forall>forest c rest d.
          fetch_comments env pid = Inr forest \<and> genuine forest = c # rest
          \<and> fromtimestamp env (k_created_utc c) = Inr d
          \<longrightarrow> make_comment pid d c \<in> set (fst (get_comments env post_ids top_level_only (Some C))))"
proof (intro conjI allI ballI impI)
  fix pid
  show "length (filter (\<lambda>r. c_post_id r = pid)
                     (fst (get_comments env post_ids top_level_only (Some C)))) \<le>
                 nat C * count_list post_ids pid"
    using foldl_post_rows_per_post [OF assms, of pid env top_level_only "[]" post_ids]
    by (simp add: get_comments_table)
next
  show "length (fst (get_comments env post_ids top_level_only (Some C))) \<le> nat C * length post_ids"
    using foldl_post_rows_total [OF assms, of env top_level_only "[]" post_ids]
    by (simp add: get_comments_table)
next
  fix pid forest c rest d
  assume p: "pid \<in> set post_ids"
    and a: "fetch_comments env pid = Inr forest \<and> genuine forest = c # rest
          \<and> fromtimestamp env (k_created_utc c) = Inr d"
  have "make_comment pid d c \<in> set (post_rows env top_level_only (Some C) acc pid)" for acc
    using a post_rows_first [of env pid forest c rest d top_level_only "Some C" acc] by blast
  from foldl_post_rows_member [of "make_comment pid d c" env top_level_only "Some C" pid, OF this p]
  show "make_comment pid d c \<in> set (fst (get_comments env post_ids top_level_only (Some C)))"
    by (simp only: get_comments_table)
qed

text \<open>
  Claim C1 on concrete data: with the limit 2, the first post gives its two comments and
  the second post is processed and gives its first comment.
\<close>

theorem get_comments_limit_per_post_witness:
  "(1::int) \<le> 2
   \<and> fetch_comments demo_reddit ''p2'' =
       Inr [Comment (demo_comment ''c3'') [], Comment (demo_comment ''c4'') []]
   \<and> fromtimestamp demo_reddit (k_created_utc (demo_comment ''c3'')) = Inr 50
   \<and> make_comment ''p2'' 50 (demo_comment ''c3'') \<in>
       set (fst (get_comments demo_reddit [''p1'', ''p2''] True (Some 2)))
   \<and> length (filter (\<lambda>r. c_post_id r = ''p1'')
               (fst (get_comments demo_reddit [''p1'', ''p2''] True (Some 2)))) \<le>
       nat 2 * count_list [''p1'', ''p2''] ''p1''
   \<and> map (\<lambda>r. (c_post_id r, comment_id r))
       (fst (get_comments demo_reddit [''p1'', ''p2''] True (Some 2))) =
       [(''p1'', ''c1''), (''p1'', ''c2''), (''p2'', ''c3'')]"
proof -
  have c: "(1::int) \<le> 2" by simp
  note t = get_comments_limit_per_post [OF c, of demo_reddit "[''p1'', ''p2'']" True]
  have f: "fetch_comments demo_reddit ''p2'' =
       Inr [Comment (demo_comment ''c3'') [], Comment (demo_comment ''c4'') []]"
    by (simp add: demo_reddit_def)
  have g: "genuine [Comment (demo_comment ''c3'') [], Comment (demo_comment ''c4'') []] =
      demo_comment ''c3'' # [demo_comment ''c4'']"
    by simp
  have d: "fromtimestamp demo_reddit (k_created_utc (demo_comment ''c3'')) = Inr 50"
    by (simp add: demo_reddit_def demo_comment_def)
  have p: "''p2'' \<in> set [''p1'', ''p2'']" by simp
  from t have "\<forall>pid\<in>set [''p1'', ''p2'']. \<forall>forest c rest d.
          fetch_comments demo_reddit pid = Inr forest \<and> genuine forest = c # rest
          \<and> fromtimestamp demo_reddit (k_created_utc c) = Inr d
          \<longrightarrow> make_comment pid d c \<in> set (fst (get_comments demo_reddit [''p1'', ''p2''] True (Some 2)))"
    by (elim conjE)
  from this [rule_format, OF p, of "[Comment (demo_comment ''c3'') [], Comment (demo_comment ''c4'') []]"
      "demo_comment ''c3''" "[demo_comment ''c4'']" 50] f g d
  have m: "make_comment ''p2'' 50 (demo_comment ''c3'') \<in>
       set (fst (get_comments demo_reddit [''p1'', ''p2''] True (Some 2)))"
    by blast
  from t have "\<forall>pid. length (filter (\<lambda>r. c_post_id r = pid)
                     (fst (get_comments demo_reddit [''p1'', ''p2''] True (Some 2)))) \<le>
                 nat 2 * count_list [''p1'', ''p2''] pid"
    by (elim conjE)
  then have b: "length (filter (\<lambda>r. c_post_id r = ''p1'')
               (fst (get_comments demo_reddit [''p1'', ''p2''] True (Some 2)))) \<le>
       nat 2 * count_list [''p1'', ''p2''] ''p1''"
    by (rule spec)
  have ev: "map (\<lambda>r. (c_post_id r, comment_id r))
       (fst (get_comments demo_reddit [''p1'', ''p2''] True (Some 2))) =
       [(''p1'', ''c1''), (''p1'', ''c2''), (''p2'', ''c3'')]"
    by code_simp
  show ?thesis
    by (intro conjI) (rule c, rule f, rule d, rule m, rule b, rule ev)
qed

section \<open>Placeholders are not expanded\<close>

text \<open>
  Claim C4, as the code has it. The call \<^verbatim>\<open>replace_more(limit=0)\<close> runs before
  any comment is read and removes every placeholder without expanding it, so no node of
  the view read afterwards is a placeholder, the top-level view holds exactly the
  genuine top-level comments that were delivered, and the flattened view holds exactly
  the delivered comments that do not lie behind a placeholder. For every list of post
  identifiers and every limit, each row of the returned table comes from such a comment
  of a listed post: a comment behind a placeholder is not collected. Without a limit,
  every such comment of a listed post whose comments all convert has its row in the
  table, and for a single post whose block raises nothing the rows are the comments of
  the view in its order.
\<close>

theorem get_comments_placeholders_removed:
  "(\<forall>r\<in>set (fst (get_comments env post_ids top_level_only limit)).
      \<exists>pid\<in>set post_ids. \<exists>forest c d.
        fetch_comments env pid = Inr forest
        \<and> c \<in> set (if top_level_only then genuine forest else visible forest)
        \<and> fromtimestamp env (k_created_utc c) = Inr d \<and> r = make_comment pid d c)
   \<and> (limit = None \<or> limit = Some 0 \<longrightarrow>
        (\<forall>pid\<in>set post_ids. \<forall>forest c d.
           fetch_comments env pid = Inr forest
           \<and> (\<forall>c'\<in>set (if top_level_only then genuine forest else visible forest).
                 \<exists>d'. fromtimestamp env (k_created_utc c') = Inr d')
           \<and> c \<in> set (if top_level_only then genuine forest else visible forest)
           \<and> fromtimestamp env (k_created_utc c) = Inr d
           \<longrightarrow> make_comment pid d c \<in> set (fst (get_comments env post_ids top_level_only limit))))
   \<and> (\<forall>pid forest. fetch_comments env pid = Inr forest \<longrightarrow>
        (\<forall>n\<in>set (if top_level_only then replace_more_limit_0 forest
                    else forest_list (replace_more_limit_0 forest)). is_comment n)
        \<and> genuine (replace_more_limit_0 forest) = genuine forest
        \<and> set (genuine (forest_list (replace_more_limit_0 forest))) = set (visible forest)
        \<and> length (genuine (forest_list (replace_more_limit_0 forest))) = length (visible forest))
   \<and> (\<forall>pid forest.
        fetch_comments env pid = Inr forest
        \<and> fst (collect_post env top_level_only None pid start_run) = None \<longrightarrow>
          map comment_id (fst (get_comments env [pid] top_level_only None)) =
            map k_id (genuine (if top_level_only then replace_more_limit_0 forest
                               else forest_list (replace_more_limit_0 forest))))"
proof (intro conjI)
  show "\<forall>r\<in>set (fst (get_comments env post_ids top_level_only limit)).
      \<exists>pid\<in>set post_ids. \<exists>forest c d.
        fetch_comments env pid = Inr forest
        \<and> c \<in> set (if top_level_only then genuine forest else visible forest)
        \<and> fromtimestamp env (k_created_utc c) = Inr d \<and> r = make_comment pid d c"
  proof
    fix r
    assume "r \<in> set (fst (get_comments env post_ids top_level_only limit))"
    then have "r \<in> set (foldl (post_rows env top_level_only limit) [] post_ids)"
      by (simp only: get_comments_table)
    from foldl_post_rows_origin [OF this]
    show "\<exists>pid\<in>set post_ids. \<exists>forest c d.
        fetch_comments env pid = Inr forest
        \<and> c \<in> set (if top_level_only then genuine forest else visible forest)
        \<and> fromtimestamp env (k_created_utc c) = Inr d \<and> r = make_comment pid d c"
      by simp
  qed
next
  show "limit = None \<or> limit = Some 0 \<longrightarrow>
        (\<forall>pid\<in>set post_ids. \<forall>forest c d.
           fetch_comments env pid = Inr forest
           \<and> (\<forall>c'\<in>set (if top_level_only then genuine forest else visible forest).
                 \<exists>d'. fromtimestamp env (k_created_utc c') = Inr d')
           \<and> c \<in> set (if top_level_only then genuine forest else visible forest)
           \<and> fromtimestamp env (k_created_utc c) = Inr d
           \<longrightarrow> make_comment pid d c \<in> set (fst (get_comments env post_ids top_level_only limit)))"
  proof (intro impI ballI allI)
    fix pid forest c d
    assume u: "limit = None \<or> limit = Some 0" and p: "pid \<in> set post_ids"
      and a: "fetch_comments env pid = Inr forest
           \<and> (\<forall>c'\<in>set (if top_level_only then genuine forest else visible forest).
                 \<exists>d'. fromtimestamp env (k_created_utc c') = Inr d')
           \<and> c \<in> set (if top_level_only then genuine forest else visible forest)
           \<and> fromtimestamp env (k_created_utc c) = Inr d"
    from a have f: "fetch_comments env pid = Inr forest"
      and ok: "\<forall>c'\<in>set (if top_level_only then genuine forest else visible forest).
                 \<exists>d'. fromtimestamp env (k_created_utc c') = Inr d'"
      and c: "c \<in> set (if top_level_only then genuine forest else visible forest)"
      and d: "fromtimestamp env (k_created_utc c) = Inr d"
      by blast+
    have "make_comment pid d c \<in> set (post_rows env top_level_only limit acc pid)" for acc
      by (rule post_rows_complete_unlimited [OF u f ok c d])
    from foldl_post_rows_member [of "make_comment pid d c" env top_level_only limit pid, OF this p]
    show "make_comment pid d c \<in> set (fst (get_comments env post_ids top_level_only limit))"
      by (simp only: get_comments_table)
  qed
next
  show "\<forall>pid forest. fetch_comments env pid = Inr forest \<longrightarrow>
        (\<forall>n\<in>set (if top_level_only then replace_more_limit_0 forest
                    else forest_list (replace_more_limit_0 forest)). is_comment n)
        \<and> genuine (replace_more_limit_0 forest) = genuine forest
        \<and> set (genuine (forest_list (replace_more_limit_0 forest))) = set (visible forest)
        \<and> length (genuine (forest_list (replace_more_limit_0 forest))) = length (visible forest)"
  proof (intro allI impI)
    fix pid forest
    assume "fetch_comments env pid = Inr forest"
    have np: "no_placeholder (if top_level_only then replace_more_limit_0 forest
                    else forest_list (replace_more_limit_0 forest))"
      by (simp add: no_placeholder_replace_more no_placeholder_forest_list)
    have a: "\<forall>n\<in>set (if top_level_only then replace_more_limit_0 forest
                    else forest_list (replace_more_limit_0 forest)). is_comment n"
      using no_placeholder_is_comment [OF np] by blast
    have b: "genuine (replace_more_limit_0 forest) = genuine forest"
      by (rule genuine_replace_more)
    have c: "set (genuine (forest_list (replace_more_limit_0 forest))) = set (visible forest)"
      by (simp only: set_genuine_forest_list visible_replace_more)
    have d: "length (genuine (forest_list (replace_more_limit_0 forest))) = length (visible forest)"
      by (simp only: length_genuine_forest_list visible_replace_more)
    from a b c d show "(\<forall>n\<in>set (if top_level_only then replace_more_limit_0 forest
                    else forest_list (replace_more_limit_0 forest)). is_comment n)
        \<and> genuine (replace_more_limit_0 forest) = genuine forest
        \<and> set (genuine (forest_list (replace_more_limit_0 forest))) = set (visible forest)
        \<and> length (genuine (forest_list (replace_more_limit_0 forest))) = length (visible forest)"
      by (intro conjI)
  qed
next
  show "\<forall>pid forest.
        fetch_comments env pid = Inr forest
        \<and> fst (collect_post env top_level_only None pid start_run) = None \<longrightarrow>
          map comment_id (fst (get_comments env [pid] top_level_only None)) =
            map k_id (genuine (if top_level_only then replace_more_limit_0 forest
                               else forest_list (replace_more_limit_0 forest)))"
  proof (intro allI impI)
    fix pid forest
    assume a: "fetch_comments env pid = Inr forest
        \<and> fst (collect_post env top_level_only None pid start_run) = None"
    let ?view = "if top_level_only then replace_more_limit_0 forest
                 else forest_list (replace_more_limit_0 forest)"
    from a have f: "fetch_comments env pid = Inr forest"
      and ok: "fst (collect_post env top_level_only None pid start_run) = None"
      by blast+
    have cp: "collect_post env top_level_only None pid start_run =
        comments_loop env pid None ?view start_run"
      using f by (simp add: collect_post_def Let_def)
    have s: "\<lparr>collected = [], printed = []\<rparr> = (start_run :: comment_row run)"
      by (simp add: start_run_def)
    have "fst (get_comments env [pid] top_level_only None) =
        collected (snd (comments_loop env pid None ?view start_run))"
      by (simp only: get_comments_single post_rows_def s cp)
    moreover from ok have "fst (comments_loop env pid None ?view start_run) = None"
      by (simp only: cp)
    ultimately show "map comment_id (fst (get_comments env [pid] top_level_only None)) =
        map k_id (genuine ?view)"
      using comments_loop_unlimited_ids [of None env pid ?view] by simp
  qed
qed

text \<open>
  Claim C4 on the forest of \<^verbatim>\<open>p3\<close>, flattened and without a limit: the comments
  \<^verbatim>\<open>c5\<close> and \<^verbatim>\<open>c6\<close> are delivered outside the placeholder and have their
  rows; the table has no other row.
\<close>

theorem get_comments_placeholders_removed_witness:
  "fetch_comments demo_reddit ''p3'' =
     Inr [Comment (demo_comment ''c5'') [Comment (demo_comment ''c6'') []],
          MoreComments [Comment (demo_comment ''c7'') []]]
   \<and> demo_comment ''c6'' \<in>
       set (visible [Comment (demo_comment ''c5'') [Comment (demo_comment ''c6'') []],
                     MoreComments [Comment (demo_comment ''c7'') []]])
   \<and> fromtimestamp demo_reddit (k_created_utc (demo_comment ''c6'')) = Inr 50
   \<and> make_comment ''p3'' 50 (demo_comment ''c6'') \<in>
       set (fst (get_comments demo_reddit [''p3''] False None))
   \<and> map comment_id (fst (get_comments demo_reddit [''p3''] False None)) = [''c5'', ''c6'']"
proof -
  let ?forest = "[Comment (demo_comment ''c5'') [Comment (demo_comment ''c6'') []],
          MoreComments [Comment (demo_comment ''c7'') []]]"
  note t = get_comments_placeholders_removed [of demo_reddit "[''p3'']" False None]
  have f: "fetch_comments demo_reddit ''p3'' = Inr ?forest"
    by (simp add: demo_reddit_def)
  have v: "demo_comment ''c6'' \<in> set (visible ?forest)" by simp
  have ok: "\<forall>c'\<in>set (if False then genuine ?forest else visible ?forest).
      \<exists>d'. fromtimestamp demo_reddit (k_created_utc c') = Inr d'"
    by (simp add: demo_reddit_def)
  have d: "fromtimestamp demo_reddit (k_created_utc (demo_comment ''c6'')) = Inr 50"
    by (simp add: demo_reddit_def demo_comment_def)
  have p: "''p3'' \<in> set [''p3'']" by simp
  have u: "(None :: int option) = None \<or> (None :: int option) = Some 0" by simp
  from t have "(None :: int option) = None \<or> (None :: int option) = Some 0 \<longrightarrow>
        (\<forall>pid\<in>set [''p3'']. \<forall>forest c d.
           fetch_comments demo_reddit pid = Inr forest
           \<and> (\<forall>c'\<in>set (if False then genuine forest else visible forest).
                 \<exists>d'. fromtimestamp demo_reddit (k_created_utc c') = Inr d')
           \<and> c \<in> set (if False then genuine forest else visible forest)
           \<and> fromtimestamp demo_reddit (k_created_utc c) = Inr d
           \<longrightarrow> make_comment pid d c \<in> set (fst (get_comments demo_reddit [''p3''] False None)))"
    by (elim conjE)
  from this [rule_format, OF u p, of ?forest "demo_comment ''c6''" 50] f ok v d
  have m: "make_comment ''p3'' 50 (demo_comment ''c6'') \<in>
       set (fst (get_comments demo_reddit [''p3''] False None))"
    by (simp only: if_False)
  have ev: "map comment_id (fst (get_comments demo_reddit [''p3''] False None)) = [''c5'', ''c6'']"
    by code_simp
  show ?thesis
    by (intro conjI) (rule f, rule v, rule d, rule m, rule ev)
qed

section \<open>The posts after a failing post\<close>

text \<open>
  Claim C7. If fetching the comments of a post identifier raises, the returned table is
  the table of the run without that identifier, for every limit: the post is skipped and
  the other posts are processed as if it were not listed. No row of the table belongs to
  the failing identifier, and the error is printed. The comments of the other listed
  posts are in the table: for every limit, the first comment of each post that can be
  fetched and converted; without a limit, every comment of the view (top-level
  comments, or all comments outside placeholders) of each post whose comments all
  convert, and every row that the post yields when collected on its own.
\<close>

theorem get_comments_fetch_error:
  assumes "fetch_comments env pid = Inl e"
  shows "fst (get_comments env (before @ pid # after) top_level_only limit) =
           fst (get_comments env (before @ after) top_level_only limit)
     \<and> (\<forall>r\<in>set (fst (get_comments env (before @ pid # after) top_level_only limit)).
          c_post_id r \<noteq> pid)
     \<and> ''  Error collecting comments from '' @ pid @ '': '' @ e \<in>
          set (snd (get_comments env (before @ pid # after) top_level_only limit))
     \<and> (limit = None \<or> limit = Some 0 \<longrightarrow>
          (\<forall>q\<in>set after.
             set (fst (get_comments env [q] top_level_only limit)) \<subseteq>
             set (fst (get_comments env (before @ pid # after) top_level_only limit))))
     \<and> (\<forall>q\<in>set before \<union> set after. \<forall>forest c rest d.
          fetch_comments env q = Inr forest \<and> genuine forest = c # rest
          \<and> fromtimestamp env (k_created_utc c) = Inr d
          \<longrightarrow> make_comment q d c \<in>
                set (fst (get_comments env (before @ pid # after) top_level_only limit)))
     \<and> (limit = None \<or> limit = Some 0 \<longrightarrow>
          (\<forall>q\<in>set before \<union> set after. \<forall>forest c d.
             fetch_comments env q = Inr forest
             \<and> (\<forall>c'\<in>set (if top_level_only then genuine forest else visible forest).
                   \<exists>d'. fromtimestamp env (k_created_utc c') = Inr d')
             \<and> c \<in> set (if top_level_only then genuine forest else visible forest)
             \<and> fromtimestamp env (k_created_utc c) = Inr d
             \<longrightarrow> make_comment q d c \<in>
                   set (fst (get_comments env (before @ pid # after) top_level_only limit))))"
proof (intro conjI)
  show "fst (get_comments env (before @ pid # after) top_level_only limit) =
           fst (get_comments env (before @ after) top_level_only limit)"
    by (simp add: get_comments_table post_rows_fetch_fails [OF assms])
next
  show "\<forall>r\<in>set (fst (get_comments env (before @ pid # after) top_level_only limit)).
          c_post_id r \<noteq> pid"
  proof
    fix r
    assume "r \<in> set (fst (get_comments env (before @ pid # after) top_level_only limit))"
    then have "r \<in> set (foldl (post_rows env top_level_only limit) [] (before @ pid # after))"
      by (simp only: get_comments_table)
    from foldl_post_rows_sound [OF this]
    have "\<exists>forest. fetch_comments env (c_post_id r) = Inr forest" by simp
    with assms show "c_post_id r \<noteq> pid" by auto
  qed
next
  have "pid \<in> set (before @ pid # after)" by simp
  from posts_loop_prints_error [OF assms this, of top_level_only limit
      "length (before @ pid # after)" 0 start_run]
  show "''  Error collecting comments from '' @ pid @ '': '' @ e \<in>
          set (snd (get_comments env (before @ pid # after) top_level_only limit))"
    unfolding get_comments_def Let_def snd_conv .
next
  show "limit = None \<or> limit = Some 0 \<longrightarrow>
          (\<forall>q\<in>set after.
             set (fst (get_comments env [q] top_level_only limit)) \<subseteq>
             set (fst (get_comments env (before @ pid # after) top_level_only limit)))"
  proof (intro impI ballI)
    fix q
    assume u: "limit = None \<or> limit = Some 0" and q: "q \<in> set after"
    have a: "fst (get_comments env [q] top_level_only limit) = post_rows env top_level_only limit [] q"
      by (rule get_comments_single)
    have b: "fst (get_comments env (before @ pid # after) top_level_only limit) =
        concat (map (post_rows env top_level_only limit []) (before @ pid # after))"
      using foldl_post_rows_unlimited [OF u, of env top_level_only "[]" "before @ pid # after"]
      by (simp only: get_comments_table append_Nil)
    have "post_rows env top_level_only limit [] q \<in>
        set (map (post_rows env top_level_only limit []) (before @ pid # after))"
      using q by simp
    then have "set (post_rows env top_level_only limit [] q) \<subseteq>
        set (concat (map (post_rows env top_level_only limit []) (before @ pid # after)))"
      unfolding set_concat by blast
    then show "set (fst (get_comments env [q] top_level_only limit)) \<subseteq>
               set (fst (get_comments env (before @ pid # after) top_level_only limit))"
      by (simp only: a b)
  qed
next
  show "\<forall>q\<in>set before \<union> set after. \<forall>forest c rest d.
          fetch_comments env q = Inr forest \<and> genuine forest = c # rest
          \<and> fromtimestamp env (k_created_utc c) = Inr d
          \<longrightarrow> make_comment q d c \<in>
                set (fst (get_comments env (before @ pid # after) top_level_only limit))"
  proof (intro ballI allI impI)
    fix q forest c rest d
    assume q: "q \<in> set before \<union> set after"
      and a: "fetch_comments env q = Inr forest \<and> genuine forest = c # rest
          \<and> fromtimestamp env (k_created_utc c) = Inr d"
    from q have m: "q \<in> set (before @ pid # after)" by auto
    have "make_comment q d c \<in> set (post_rows env top_level_only limit acc q)" for acc
      using a post_rows_first [of env q forest c rest d top_level_only limit acc] by blast
    from foldl_post_rows_member [of "make_comment q d c" env top_level_only limit q, OF this m]
    show "make_comment q d c \<in>
        set (fst (get_comments env (before @ pid # after) top_level_only limit))"
      by (simp only: get_comments_table)
  qed
next
  show "limit = None \<or> limit = Some 0 \<longrightarrow>
          (\<forall>q\<in>set before \<union> set after. \<forall>forest c d.
             fetch_comments env q = Inr forest
             \<and> (\<forall>c'\<in>set (if top_level_only then genuine forest else visible forest).
                   \<exists>d'. fromtimestamp env (k_created_utc c') = Inr d')
             \<and> c \<in> set (if top_level_only then genuine forest else visible forest)
             \<and> fromtimestamp env (k_created_utc c) = Inr d
             \<longrightarrow> make_comment q d c \<in>
                   set (fst (get_comments env (before @ pid # after) top_level_only limit)))"
  proof (intro impI ballI allI)
    fix q forest c d
    assume u: "limit = None \<or> limit = Some 0" and q: "q \<in> set before \<union> set after"
      and a: "fetch_comments env q = Inr forest
             \<and> (\<forall>c'\<in>set (if top_level_only then genuine forest else visible forest).
                   \<exists>d'. fromtimestamp env (k_created_utc c') = Inr d')
             \<and> c \<in> set (if top_level_only then genuine forest else visible forest)
             \<and> fromtimestamp env (k_created_utc c) = Inr d"
    from q have m: "q \<in> set (before @ pid # after)" by auto
    from a have f: "fetch_comments env q = Inr forest"
      and ok: "\<forall>c'\<in>set (if top_level_only then genuine forest else visible forest).
                 \<exists>d'. fromtimestamp env (k_created_utc c') = Inr d'"
      and c: "c \<in> set (if top_level_only then genuine forest else visible forest)"
      and d: "fromtimestamp env (k_created_utc c) = Inr d"
      by blast+
    have "make_comment q d c \<in> set (post_rows env top_level_only limit acc q)" for acc
      by (rule post_rows_complete_unlimited [OF u f ok c d])
    from foldl_post_rows_member [of "make_comment q d c" env top_level_only limit q, OF this m]
    show "make_comment q d c \<in>
        set (fst (get_comments env (before @ pid # after) top_level_only limit))"
      by (simp only: get_comments_table)
  qed
qed

text \<open>
  Claim C7 on concrete data: the identifier \<^verbatim>\<open>gone\<close> cannot be fetched; the table
  holds the comments of \<^verbatim>\<open>p1\<close> before it and of \<^verbatim>\<open>p2\<close> after it, among them
  the second comment \<^verbatim>\<open>c4\<close> of \<^verbatim>\<open>p2\<close>.
\<close>

theorem get_comments_fetch_error_witness:
  "fetch_comments demo_reddit ''gone'' = Inl ''received 404 HTTP response''
   \<and> fetch_comments demo_reddit ''p2'' =
       Inr [Comment (demo_comment ''c3'') [], Comment (demo_comment ''c4'') []]
   \<and> demo_comment ''c4'' \<in>
       set (genuine [Comment (demo_comment ''c3'') [], Comment (demo_comment ''c4'') []])
   \<and> fromtimestamp demo_reddit (k_created_utc (demo_comment ''c4'')) = Inr 50
   \<and> make_comment ''p2'' 50 (demo_comment ''c4'') \<in>
       set (fst (get_comments demo_reddit ([''p1''] @ ''gone'' # [''p2'']) True None))
   \<and> fst (get_comments demo_reddit ([''p1''] @ ''gone'' # [''p2'']) True None) =
       fst (get_comments demo_reddit ([''p1''] @ [''p2'']) True None)
   \<and> ''  Error collecting comments from gone: received 404 HTTP response'' \<in>
       set (snd (get_comments demo_reddit ([''p1''] @ ''gone'' # [''p2'']) True None))
   \<and> map (\<lambda>r. (c_post_id r, comment_id r))
       (fst (get_comments demo_reddit ([''p1''] @ ''gone'' # [''p2'']) True None)) =
       [(''p1'', ''c1''), (''p1'', ''c2''), (''p2'', ''c3''), (''p2'', ''c4'')]"
proof -
  let ?forest = "[Comment (demo_comment ''c3'') [], Comment (demo_comment ''c4'') []]"
  have h: "fetch_comments demo_reddit ''gone'' = Inl ''received 404 HTTP response''"
    by (simp add: demo_reddit_def)
  note t = get_comments_fetch_error [OF h, of "[''p1'']" "[''p2'']" True None]
  have f: "fetch_comments demo_reddit ''p2'' = Inr ?forest"
    by (simp add: demo_reddit_def)
  have g: "demo_comment ''c4'' \<in> set (genuine ?forest)" by simp
  have ok: "\<forall>c'\<in>set (if True then genuine ?forest else visible ?forest).
      \<exists>d'. fromtimestamp demo_reddit (k_created_utc c') = Inr d'"
    by (simp add: demo_reddit_def)
  have d: "fromtimestamp demo_reddit (k_created_utc (demo_comment ''c4'')) = Inr 50"
    by (simp add: demo_reddit_def demo_comment_def)
  have q: "''p2'' \<in> set [''p1''] \<union> set [''p2'']" by simp
  have u: "(None :: int option) = None \<or> (None :: int option) = Some 0" by simp
  from t have a: "fst (get_comments demo_reddit ([''p1''] @ ''gone'' # [''p2'']) True None) =
       fst (get_comments demo_reddit ([''p1''] @ [''p2'']) True None)"
    by (elim conjE)
  from t have "''  Error collecting comments from '' @ ''gone'' @ '': '' @ ''received 404 HTTP response'' \<in>
       set (snd (get_comments demo_reddit ([''p1''] @ ''gone'' # [''p2'']) True None))"
    by (elim conjE)
  then have b: "''  Error collecting comments from gone: received 404 HTTP response'' \<in>
       set (snd (get_comments demo_reddit ([''p1''] @ ''gone'' # [''p2'']) True None))"
    by simp
  from t have "(None :: int option) = None \<or> (None :: int option) = Some 0 \<longrightarrow>
          (\<forall>q\<in>set [''p1''] \<union> set [''p2'']. \<forall>forest c d.
             fetch_comments demo_reddit q = Inr forest
             \<and> (\<forall>c'\<in>set (if True then genuine forest else visible forest).
                   \<exists>d'. fromtimestamp demo_reddit (k_created_utc c') = Inr d')
             \<and> c \<in> set (if True then genuine forest else visible forest)
             \<and> fromtimestamp demo_reddit (k_created_utc c) = Inr d
             \<longrightarrow> make_comment q d c \<in>
                   set (fst (get_comments demo_reddit ([''p1''] @ ''gone'' # [''p2'']) True None)))"
    by (elim conjE)
  from this [rule_format, OF u q, of ?forest "demo_comment ''c4''" 50] f ok g d
  have m: "make_comment ''p2'' 50 (demo_comment ''c4'') \<in>
       set (fst (get_comments demo_reddit ([''p1''] @ ''gone'' # [''p2'']) True None))"
    by (simp only: if_True)
  have ev: "map (\<lambda>r. (c_post_id r, comment_id r))
       (fst (get_comments demo_reddit ([''p1''] @ ''gone'' # [''p2'']) True None)) =
       [(''p1'', ''c1''), (''p1'', ''c2''), (''p2'', ''c3''), (''p2'', ''c4'')]"
    by code_simp
  show ?thesis
    by (intro conjI) (rule h, rule f, rule g, rule d, rule m, rule a, rule b, rule ev)
qed

end
